theory Spec2Isabelle
  imports Main "HOL-Library.Monad_Syntax"
begin

section \<open>Python values and containers\<close>

text \<open>
  A Python number as the program uses it: an unbounded integer or \<open>math.inf\<close>.
  The same sentinel \<open>math.inf\<close> is stored in cost cells and in back-pointer cells.
\<close>

datatype pynum = Fin int | PInf

text \<open>\<open>c + x\<close> for an integer \<open>c\<close>: adding to \<open>math.inf\<close> gives \<open>math.inf\<close>.\<close>

fun add_num :: "int \<Rightarrow> pynum \<Rightarrow> pynum" where
  "add_num c (Fin v) = Fin (c + v)"
| "add_num c PInf = PInf"

text \<open>Python's \<open>min\<close> of two numbers.\<close>

fun min_num :: "pynum \<Rightarrow> pynum \<Rightarrow> pynum" where
  "min_num (Fin a) (Fin b) = Fin (min a b)"
| "min_num (Fin a) PInf = Fin a"
| "min_num PInf y = y"

text \<open>
  Python indexing \<open>xs[k]\<close>: a negative index counts from the end, an index out of range
  raises IndexError (here \<open>None\<close>).
\<close>

definition pyindex :: "nat \<Rightarrow> int \<Rightarrow> nat option" where
  "pyindex n k =
     (let k' = (if k < 0 then int n + k else k)
      in if 0 \<le> k' \<and> k' < int n then Some (nat k') else None)"

definition pyget :: "'a list \<Rightarrow> int \<Rightarrow> 'a option" where
  "pyget xs k = map_option (\<lambda>p. xs ! p) (pyindex (length xs) k)"

text \<open>\<open>M[i][j]\<close> on a list of lists.\<close>

definition pyget2 :: "'a list list \<Rightarrow> int \<Rightarrow> int \<Rightarrow> 'a option" where
  "pyget2 M i j = (case pyget M i of None \<Rightarrow> None | Some r \<Rightarrow> pyget r j)"

text \<open>The slice \<open>xs[:k]\<close>; a negative \<open>k\<close> drops the last \<open>-k\<close> elements.\<close>

definition pyprefix :: "'a list \<Rightarrow> int \<Rightarrow> 'a list" where
  "pyprefix xs k = (if k < 0 then take (nat (int (length xs) + k)) xs else take (nat k) xs)"

text \<open>\<open>M[i].append(x)\<close>.\<close>

definition row_append :: "'a list list \<Rightarrow> int \<Rightarrow> 'a \<Rightarrow> 'a list list option" where
  "row_append M i x =
     (case pyindex (length M) i of None \<Rightarrow> None
      | Some p \<Rightarrow> Some (M[p := M ! p @ [x]]))"

text \<open>A \<open>for\<close> loop over a list of indices whose body may raise.\<close>

fun for_each :: "('a \<Rightarrow> 's \<Rightarrow> 's option) \<Rightarrow> 'a list \<Rightarrow> 's \<Rightarrow> 's option" where
  "for_each body [] s = Some s"
| "for_each body (x # xs) s =
     (case body x s of None \<Rightarrow> None | Some s' \<Rightarrow> for_each body xs s')"

text \<open>Successful reads bound the index from below; the loops below terminate by that.\<close>

lemma pyget_SomeD:
  "pyget xs k = Some x \<Longrightarrow> - int (length xs) \<le> k \<and> k < int (length xs) \<and> x \<in> set xs"
  by (auto simp: pyget_def pyindex_def Let_def split: if_splits)

lemma pyget2_lower:
  assumes "pyget2 M i j = Some x"
  shows "- int (sum_list (map length M)) \<le> j"
proof -
  from assms obtain row where r: "pyget M i = Some row" and x: "pyget row j = Some x"
    by (auto simp: pyget2_def split: option.splits)
  from r have "row \<in> set M" by (simp add: pyget_SomeD)
  then have "length row \<le> sum_list (map length M)"
    by (simp add: member_le_sum_list)
  moreover from x have "- int (length row) \<le> j" by (simp add: pyget_SomeD)
  ultimately show ?thesis by linarith
qed

lemma pyget2_row_lower: "pyget2 M i j = Some x \<Longrightarrow> - int (length M) \<le> i"
  by (auto simp: pyget2_def split: option.splits dest: pyget_SomeD)

section \<open>Constants and instance state\<close>

definition MAXINDELS :: int where "MAXINDELS = 3"
definition MATCH :: int where "MATCH = - 3"
definition INDEL :: int where "INDEL = 5"
definition SUB :: int where "SUB = 1"

record GeneSequencing =
  banded :: bool
  MaxCharactersToAlign :: int

record result =
  align_cost :: pynum
  seqi_first100 :: string
  seqj_first100 :: string

definition diff :: "char \<Rightarrow> char \<Rightarrow> int" where
  "diff i j = (if i = j then MATCH else SUB)"

section \<open>Unrestricted cost-matrix builder\<close>

type_synonym utables = "int list list \<times> pynum list list"

text \<open>The body of the double loop of \<open>getEditDistanceUnrestricted\<close> at cell \<open>(i, j)\<close>.\<close>

definition unrestricted_cell :: "string \<Rightarrow> string \<Rightarrow> nat \<Rightarrow> nat \<Rightarrow> utables \<Rightarrow> utables option" where
  "unrestricted_cell seq1 seq2 i j EP =
     (case EP of (E, P) \<Rightarrow> do {
        a \<leftarrow> pyget seq1 (int i - 1);
        b \<leftarrow> pyget seq2 (int j - 1);
        d \<leftarrow> pyget2 E (int i - 1) (int j - 1);
        l \<leftarrow> pyget2 E (int i) (int j - 1);
        u \<leftarrow> pyget2 E (int i - 1) (int j);
        let e = min (diff a b + d) (min (INDEL + l) (INDEL + u));
        E' \<leftarrow> row_append E (int i) e;
        l' \<leftarrow> pyget2 E' (int i) (int j - 1);
        if e = INDEL + l' then do {
          P' \<leftarrow> row_append P (int i) (Fin 1);
          Some (E', P')
        } else do {
          u' \<leftarrow> pyget2 E' (int i - 1) (int j);
          if e = INDEL + u' then do {
            P' \<leftarrow> row_append P (int i) (Fin 2);
            Some (E', P')
          } else do {
            P' \<leftarrow> row_append P (int i) (Fin 0);
            Some (E', P')
          }
        }
      })"

text \<open>The second loop: row 0 of both tables.\<close>

definition unrestricted_row0 :: "nat \<Rightarrow> utables \<Rightarrow> utables option" where
  "unrestricted_row0 j EP =
     (case EP of (E, P) \<Rightarrow> do {
        E' \<leftarrow> row_append E 0 (5 * int j);
        P' \<leftarrow> row_append P 0 (Fin 1);
        Some (E', P')
      })"

definition unrestricted_tables :: "string \<Rightarrow> string \<Rightarrow> int \<Rightarrow> int \<Rightarrow> utables option" where
  "unrestricted_tables seq1 seq2 len1 len2 = do {
     let E0 = map (\<lambda>i. [5 * int i]) [0..<nat len1];
     let P0 = map (\<lambda>i. [Fin 0]) [0..<nat len1];
     EP \<leftarrow> for_each unrestricted_row0 [1..<nat len2] (E0, P0);
     for_each (\<lambda>i. for_each (unrestricted_cell seq1 seq2 i) [1..<nat len2]) [1..<nat len1] EP
   }"

definition getEditDistanceUnrestricted ::
  "GeneSequencing \<Rightarrow> string \<Rightarrow> string \<Rightarrow> (pynum \<times> pynum list list) option" where
  "getEditDistanceUnrestricted self seq1 seq2 =
     (let len1 = min (int (length seq1)) (MaxCharactersToAlign self) + 1;
          len2 = min (int (length seq2)) (MaxCharactersToAlign self) + 1
      in do {
        (E, P) \<leftarrow> unrestricted_tables seq1 seq2 len1 len2;
        e \<leftarrow> pyget2 E (len1 - 1) (len2 - 1);
        Some (Fin e, P)
      })"

section \<open>Banded cost-matrix builder\<close>

type_synonym btables = "pynum list list \<times> pynum list list"

text \<open>The body of the inner loop of \<open>getEditDistanceBanded\<close> at row \<open>i\<close>, band column \<open>j\<close>.\<close>

definition banded_cell :: "string \<Rightarrow> string \<Rightarrow> int \<Rightarrow> nat \<Rightarrow> nat \<Rightarrow> btables \<Rightarrow> btables option" where
  "banded_cell seq1 seq2 len2 i j EP =
     (case EP of (E, P) \<Rightarrow>
        if int (length seq2) \<ge> int i + int j - MAXINDELS \<and> int i + int j - MAXINDELS \<ge> 0 then
          if i = 0 then do {
            E' \<leftarrow> row_append E (int i) (Fin (5 * (int j - MAXINDELS)));
            P' \<leftarrow> row_append P (int i) (Fin 1);
            Some (E', P')
          } else if int j = len2 - 1 then do {
            a \<leftarrow> pyget seq1 (int i - 1);
            b \<leftarrow> pyget seq2 (int i + int j - MAXINDELS - 1);
            d \<leftarrow> pyget2 E (int i - 1) (int j);
            l \<leftarrow> pyget2 E (int i) (int j - 1);
            let e = min_num (add_num (diff a b) d) (add_num INDEL l);
            l' \<leftarrow> pyget2 E (int i) (int j - 1);
            P' \<leftarrow> row_append P (int i) (if e = add_num INDEL l' then Fin 1 else Fin 0);
            E' \<leftarrow> row_append E (int i) e;
            Some (E', P')
          } else if j = 0 then do {
            a \<leftarrow> pyget seq1 (int i - 1);
            b \<leftarrow> pyget seq2 (int i + int j - MAXINDELS - 1);
            d \<leftarrow> pyget2 E (int i - 1) (int j);
            u \<leftarrow> pyget2 E (int i - 1) (int j + 1);
            let e = min_num (add_num (diff a b) d) (add_num INDEL u);
            u' \<leftarrow> pyget2 E (int i - 1) (int j + 1);
            P' \<leftarrow> row_append P (int i) (if e = add_num INDEL u' then Fin 2 else Fin 0);
            E' \<leftarrow> row_append E (int i) e;
            Some (E', P')
          } else do {
            a \<leftarrow> pyget seq1 (int i - 1);
            b \<leftarrow> pyget seq2 (int i + int j - MAXINDELS - 1);
            d \<leftarrow> pyget2 E (int i - 1) (int j);
            l \<leftarrow> pyget2 E (int i) (int j - 1);
            u \<leftarrow> pyget2 E (int i - 1) (int j + 1);
            let e = min_num (add_num (diff a b) d) (min_num (add_num INDEL l) (add_num INDEL u));
            l' \<leftarrow> pyget2 E (int i) (int j - 1);
            if e = add_num INDEL l' then do {
              P' \<leftarrow> row_append P (int i) (Fin 1);
              E' \<leftarrow> row_append E (int i) e;
              Some (E', P')
            } else do {
              u' \<leftarrow> pyget2 E (int i - 1) (int j + 1);
              P' \<leftarrow> row_append P (int i) (if e = add_num INDEL u' then Fin 2 else Fin 0);
              E' \<leftarrow> row_append E (int i) e;
              Some (E', P')
            }
          }
        else do {
          E' \<leftarrow> row_append E (int i) PInf;
          P' \<leftarrow> row_append P (int i) PInf;
          Some (E', P')
        })"

text \<open>One pass of the outer loop: a new empty row in each table, then the inner loop.\<close>

definition banded_row :: "string \<Rightarrow> string \<Rightarrow> int \<Rightarrow> nat \<Rightarrow> btables \<Rightarrow> btables option" where
  "banded_row seq1 seq2 len2 i EP =
     (case EP of (E, P) \<Rightarrow>
        for_each (banded_cell seq1 seq2 len2 i) [0..<nat len2] (E @ [[]], P @ [[]]))"

definition banded_tables :: "string \<Rightarrow> string \<Rightarrow> int \<Rightarrow> int \<Rightarrow> btables option" where
  "banded_tables seq1 seq2 len1 len2 =
     for_each (banded_row seq1 seq2 len2) [0..<nat len1] ([], [])"

text \<open>
  The final loop \<open>while ret == math.inf: ret_j -= 1; ret = E[len1 - 1][ret_j]\<close>,
  entered with \<open>ret = E[len1 - 1][ret_j]\<close> already read.
\<close>

function banded_ret :: "pynum list list \<Rightarrow> int \<Rightarrow> int \<Rightarrow> pynum \<Rightarrow> pynum option" where
  "banded_ret E r ret_j ret =
     (if ret = PInf then
        (case pyget2 E r (ret_j - 1) of None \<Rightarrow> None
         | Some ret' \<Rightarrow> banded_ret E r (ret_j - 1) ret')
      else Some ret)"
  by pat_completeness auto
termination
proof (relation "measure (\<lambda>(E, r, ret_j, ret). nat (ret_j + int (sum_list (map length E)) + 1))")
  show "wf (measure (\<lambda>(E, r, ret_j, ret). nat (ret_j + int (sum_list (map length E)) + 1)))"
    by simp
next
  fix E :: "pynum list list" and r ret_j :: int and ret x2 :: pynum
  assume "pyget2 E r (ret_j - 1) = Some x2"
  then have "- int (sum_list (map length E)) \<le> ret_j - 1"
    by (rule pyget2_lower)
  then show "((E, r, ret_j - 1, x2), (E, r, ret_j, ret))
      \<in> measure (\<lambda>(E, r, ret_j, ret). nat (ret_j + int (sum_list (map length E)) + 1))"
    by simp
qed

definition getEditDistanceBanded ::
  "GeneSequencing \<Rightarrow> string \<Rightarrow> string \<Rightarrow> (pynum \<times> pynum list list) option" where
  "getEditDistanceBanded self seq1_in seq2_in =
     (let seq1 = pyprefix seq1_in (MaxCharactersToAlign self);
          seq2 = pyprefix seq2_in (MaxCharactersToAlign self);
          len1 = int (length seq1) + 1;
          len2 = 2 * MAXINDELS + 1
      in if abs (int (length seq1) - int (length seq2)) > MAXINDELS then Some (PInf, [])
         else do {
           (E, P) \<leftarrow> banded_tables seq1 seq2 len1 len2;
           ret \<leftarrow> pyget2 E (len1 - 1) (len2 - 1);
           ret' \<leftarrow> banded_ret E (len1 - 1) (len2 - 1) ret;
           Some (ret', P)
         })"

definition getEditDistance ::
  "GeneSequencing \<Rightarrow> string \<Rightarrow> string \<Rightarrow> (pynum \<times> pynum list list) option" where
  "getEditDistance self seq1 seq2 =
     (if banded self then getEditDistanceBanded self seq1 seq2
      else getEditDistanceUnrestricted self seq1 seq2)"

section \<open>Traceback\<close>

text \<open>
  The main loop of \<open>alignedUnrestricted\<close>. The two strings are built by prepending, so
  the accumulators \<open>a1\<close> and \<open>a2\<close> hold \<open>seq1_aligned\<close> and \<open>seq2_aligned\<close>.
\<close>

function alignedUnrestricted_loop ::
  "string \<Rightarrow> string \<Rightarrow> pynum list list \<Rightarrow> int \<Rightarrow> int \<Rightarrow> string \<Rightarrow> string \<Rightarrow> (string \<times> string) option" where
  "alignedUnrestricted_loop seq1 seq2 P i j a1 a2 =
     (if i > 0 \<or> j > 0 then
        (case pyget2 P i j of None \<Rightarrow> None
         | Some p \<Rightarrow>
             if p = Fin 2 then
               (case pyget seq1 (i - 1) of None \<Rightarrow> None
                | Some c \<Rightarrow> alignedUnrestricted_loop seq1 seq2 P (i - 1) j (c # a1) (CHR ''-'' # a2))
             else if p = Fin 0 then
               (case pyget seq1 (i - 1) of None \<Rightarrow> None
                | Some c \<Rightarrow>
                    (case pyget seq2 (j - 1) of None \<Rightarrow> None
                     | Some d \<Rightarrow> alignedUnrestricted_loop seq1 seq2 P (i - 1) (j - 1) (c # a1) (d # a2)))
             else
               (case pyget seq2 (j - 1) of None \<Rightarrow> None
                | Some d \<Rightarrow> alignedUnrestricted_loop seq1 seq2 P i (j - 1) (CHR ''-'' # a1) (d # a2)))
      else Some (a1, a2))"
  by pat_completeness auto
termination
proof (relation "measure (\<lambda>(seq1, seq2, P, i, j, a1, a2).
    nat (i + j + int (length P) + int (sum_list (map length P)) + 2))", goal_cases)
  case 1
  show ?case by simp
next
  case (2 seq1 seq2 P i j a1 a2 p c)
  from pyget2_lower [OF 2(2)] pyget2_row_lower [OF 2(2)] show ?case by simp
next
  case (3 seq1 seq2 P i j a1 a2 p c d)
  from pyget2_lower [OF 3(2)] pyget2_row_lower [OF 3(2)] show ?case by simp
next
  case (4 seq1 seq2 P i j a1 a2 p d)
  from pyget2_lower [OF 4(2)] pyget2_row_lower [OF 4(2)] show ?case by simp
qed

definition alignedUnrestricted :: "string \<Rightarrow> string \<Rightarrow> pynum list list \<Rightarrow> (string \<times> string) option" where
  "alignedUnrestricted seq1 seq2 P =
     (let i = int (length P) - 1 in
      do {
        row \<leftarrow> pyget P i;
        let j = int (length row) - 1;
        (a1, a2) \<leftarrow> alignedUnrestricted_loop seq1 seq2 P i j [] [];
        Some (pyprefix a1 100, pyprefix a2 100)
      })"

text \<open>The first loop of \<open>alignedBanded\<close>: \<open>while P[i][j] == math.inf: j -= 1\<close>.\<close>

function alignedBanded_start :: "pynum list list \<Rightarrow> int \<Rightarrow> int \<Rightarrow> int option" where
  "alignedBanded_start P i j =
     (case pyget2 P i j of None \<Rightarrow> None
      | Some p \<Rightarrow> if p = PInf then alignedBanded_start P i (j - 1) else Some j)"
  by pat_completeness auto
termination
proof (relation "measure (\<lambda>(P, i, j). nat (j + int (sum_list (map length P)) + 1))", goal_cases)
  case 1
  show ?case by simp
next
  case (2 P i j p)
  from pyget2_lower [OF 2(1)] show ?case by simp
qed

text \<open>The main loop of \<open>alignedBanded\<close>.\<close>

function alignedBanded_loop ::
  "string \<Rightarrow> string \<Rightarrow> pynum list list \<Rightarrow> int \<Rightarrow> int \<Rightarrow> string \<Rightarrow> string \<Rightarrow> (string \<times> string) option" where
  "alignedBanded_loop seq1 seq2 P i j a1 a2 =
     (if \<not> (i = 0 \<and> j = MAXINDELS) then
        (case pyget2 P i j of None \<Rightarrow> None
         | Some p \<Rightarrow>
             if p = Fin 2 then
               (case pyget seq1 (i - 1) of None \<Rightarrow> None
                | Some c \<Rightarrow> alignedBanded_loop seq1 seq2 P (i - 1) (j + 1) (c # a1) (CHR ''-'' # a2))
             else if p = Fin 0 then
               (case pyget seq1 (i - 1) of None \<Rightarrow> None
                | Some c \<Rightarrow>
                    (case pyget seq2 (i + j - MAXINDELS - 1) of None \<Rightarrow> None
                     | Some d \<Rightarrow> alignedBanded_loop seq1 seq2 P (i - 1) j (c # a1) (d # a2)))
             else
               (case pyget seq2 (i + j - MAXINDELS - 1) of None \<Rightarrow> None
                | Some d \<Rightarrow> alignedBanded_loop seq1 seq2 P i (j - 1) (CHR ''-'' # a1) (d # a2)))
      else Some (a1, a2))"
  by pat_completeness auto
termination
proof (relation "(\<lambda>(seq1, seq2, P, i, j, a1, a2). nat (i + int (length P) + 1)) <*mlex*>
    measure (\<lambda>(seq1, seq2, P, i, j, a1, a2). nat (j + int (sum_list (map length P)) + 1))", goal_cases)
  case 1
  show ?case by (simp add: wf_mlex)
next
  case (2 seq1 seq2 P i j a1 a2 p c)
  from pyget2_row_lower [OF 2(2)] show ?case by (simp add: mlex_less)
next
  case (3 seq1 seq2 P i j a1 a2 p c d)
  from pyget2_row_lower [OF 3(2)] show ?case by (simp add: mlex_less)
next
  case (4 seq1 seq2 P i j a1 a2 p d)
  from pyget2_lower [OF 4(2)] show ?case by (simp add: mlex_leq)
qed

definition alignedBanded :: "string \<Rightarrow> string \<Rightarrow> pynum list list \<Rightarrow> (string \<times> string) option" where
  "alignedBanded seq1 seq2 P =
     (let i = int (length P) - 1 in
      do {
        row \<leftarrow> pyget P i;
        j \<leftarrow> alignedBanded_start P i (int (length row) - 1);
        (a1, a2) \<leftarrow> alignedBanded_loop seq1 seq2 P i j [] [];
        Some (pyprefix a1 100, pyprefix a2 100)
      })"

definition aligned ::
  "GeneSequencing \<Rightarrow> string \<Rightarrow> string \<Rightarrow> pynum list list \<Rightarrow> (string \<times> string) option" where
  "aligned self seq1 seq2 P =
     (if P = [] then Some (''No Alignment Possible'', ''No Alignment Possible'')
      else if banded self then alignedBanded seq1 seq2 P
      else alignedUnrestricted seq1 seq2 P)"

section \<open>The entry point\<close>

definition align :: "string \<Rightarrow> string \<Rightarrow> bool \<Rightarrow> int \<Rightarrow> result option" where
  "align seq1 seq2 b align_length =
     (let self = \<lparr>banded = b, MaxCharactersToAlign = align_length\<rparr>
      in do {
        (score, P) \<leftarrow> getEditDistance self seq1 seq2;
        (alignment1, alignment2) \<leftarrow> aligned self seq1 seq2 P;
        Some \<lparr>align_cost = score, seqi_first100 = alignment1, seqj_first100 = alignment2\<rparr>
      })"

text \<open>The loop equations are unfolded by hand, one iteration at a time.\<close>

declare banded_ret.simps [simp del]
declare alignedBanded_start.simps [simp del]
declare alignedBanded_loop.simps [simp del]
declare alignedUnrestricted_loop.simps [simp del]

section \<open>Reference definitions\<close>

text \<open>
  The dynamic program as the specification words it: \<open>E[0][j] = 5 j\<close>, \<open>E[i][0] = 5 i\<close>, and
  for \<open>i, j \<ge> 1\<close> the minimum of the diagonal, left and up candidates.
\<close>

fun E_spec :: "string \<Rightarrow> string \<Rightarrow> nat \<Rightarrow> nat \<Rightarrow> int" where
  "E_spec s t 0 j = 5 * int j"
| "E_spec s t (Suc i) 0 = 5 * int (Suc i)"
| "E_spec s t (Suc i) (Suc j) =
     min (diff (s ! i) (t ! j) + E_spec s t i j)
         (min (5 + E_spec s t (Suc i) j) (5 + E_spec s t i (Suc j)))"

text \<open>
  The back-pointer the unrestricted builder stores at \<open>(i, j)\<close>, in closed form: 0 in column 0
  (line 120), 1 in the rest of row 0 (line 123), and in the interior the first of left (1),
  up (2), diagonal (0) whose candidate is the cell's cost (lines 128-133).
\<close>

definition P_tag :: "string \<Rightarrow> string \<Rightarrow> nat \<Rightarrow> nat \<Rightarrow> pynum" where
  "P_tag s t i j =
     (if j = 0 then Fin 0
      else if i = 0 then Fin 1
      else if E_spec s t i j = INDEL + E_spec s t i (j - 1) then Fin 1
      else if E_spec s t i j = INDEL + E_spec s t (i - 1) j then Fin 2
      else Fin 0)"

text \<open>
  The shape of a table during the double loop, while row \<open>i\<close> is being filled and holds
  \<open>j\<close> entries: the rows above are complete, the rows below hold their first entry.
\<close>

definition partial_tab :: "(nat \<Rightarrow> nat \<Rightarrow> 'a) \<Rightarrow> nat \<Rightarrow> nat \<Rightarrow> nat \<Rightarrow> nat \<Rightarrow> 'a list list" where
  "partial_tab f n m i j =
     map (\<lambda>r. map (f r) [0..<(if r < i then Suc m else if r = i then j else 1)]) [0..<Suc n]"

text \<open>The finished table of \<open>n + 1\<close> rows and \<open>m + 1\<close> columns.\<close>

definition full_tab :: "(nat \<Rightarrow> nat \<Rightarrow> 'a) \<Rightarrow> nat \<Rightarrow> nat \<Rightarrow> 'a list list" where
  "full_tab f n m = map (\<lambda>r. map (f r) [0..<Suc m]) [0..<Suc n]"

text \<open>
  Alignments, for the optimality part of the cost claim: a list of columns, each pairing a
  character of each sequence (\<open>Both\<close>), or a character of the first sequence with a gap
  (\<open>Del\<close>), or a gap with a character of the second (\<open>Ins\<close>). Costs: match -3,
  substitution +1, indel +5.
\<close>

datatype column = Both char char | Del char | Ins char

fun col_cost :: "column \<Rightarrow> int" where
  "col_cost (Both a b) = (if a = b then - 3 else 1)"
| "col_cost (Del a) = 5"
| "col_cost (Ins b) = 5"

fun top_seq :: "column list \<Rightarrow> string" where
  "top_seq [] = []"
| "top_seq (Both a b # al) = a # top_seq al"
| "top_seq (Del a # al) = a # top_seq al"
| "top_seq (Ins b # al) = top_seq al"

fun bottom_seq :: "column list \<Rightarrow> string" where
  "bottom_seq [] = []"
| "bottom_seq (Both a b # al) = b # bottom_seq al"
| "bottom_seq (Del a # al) = bottom_seq al"
| "bottom_seq (Ins b # al) = b # bottom_seq al"

definition alignment_cost :: "column list \<Rightarrow> int" where
  "alignment_cost al = sum_list (map col_cost al)"

definition aligns :: "column list \<Rightarrow> string \<Rightarrow> string \<Rightarrow> bool" where
  "aligns al s t \<longleftrightarrow> top_seq al = s \<and> bottom_seq al = t"

text \<open>
  The banded builder, in closed form. Row \<open>i\<close>, band column \<open>j\<close> stands for the real column
  \<open>i + j - 3\<close>; the cell is inside the band when \<open>0 \<le> i + j - 3 \<le> len(seq2)\<close> (line 70).
\<close>

definition band_valid :: "string \<Rightarrow> nat \<Rightarrow> nat \<Rightarrow> bool" where
  "band_valid t i j \<longleftrightarrow> 3 \<le> i + j \<and> i + j \<le> length t + 3"

text \<open>
  The character \<open>seq2[i + j - MAXINDELS - 1]\<close> as Python reads it: for the real column 0 the
  index is -1, the last character.
\<close>

definition band_char :: "string \<Rightarrow> nat \<Rightarrow> nat \<Rightarrow> char" where
  "band_char t i j = (if i + j = 3 then last t else t ! (i + j - 4))"

text \<open>The cost cell of lines 71-99.\<close>

fun band_E :: "string \<Rightarrow> string \<Rightarrow> nat \<Rightarrow> nat \<Rightarrow> pynum" where
  "band_E s t 0 j = (if band_valid t 0 j then Fin (5 * (int j - 3)) else PInf)"
| "band_E s t (Suc i) j =
     (if band_valid t (Suc i) j then
        if j = 6 then
          min_num (add_num (diff (s ! i) (band_char t (Suc i) j)) (band_E s t i j))
                  (add_num INDEL (band_E s t (Suc i) (j - 1)))
        else if j = 0 then
          min_num (add_num (diff (s ! i) (band_char t (Suc i) j)) (band_E s t i j))
                  (add_num INDEL (band_E s t i (j + 1)))
        else
          min_num (add_num (diff (s ! i) (band_char t (Suc i) j)) (band_E s t i j))
                  (min_num (add_num INDEL (band_E s t (Suc i) (j - 1)))
                           (add_num INDEL (band_E s t i (j + 1))))
      else PInf)"

text \<open>The back-pointer cell of lines 71-100.\<close>

definition band_P :: "string \<Rightarrow> string \<Rightarrow> nat \<Rightarrow> nat \<Rightarrow> pynum" where
  "band_P s t i j =
     (if \<not> band_valid t i j then PInf
      else if i = 0 then Fin 1
      else if j = 6 then
        (if band_E s t i j = add_num INDEL (band_E s t i (j - 1)) then Fin 1 else Fin 0)
      else if j = 0 then
        (if band_E s t i j = add_num INDEL (band_E s t (i - 1) (j + 1)) then Fin 2 else Fin 0)
      else if band_E s t i j = add_num INDEL (band_E s t i (j - 1)) then Fin 1
      else if band_E s t i j = add_num INDEL (band_E s t (i - 1) (j + 1)) then Fin 2
      else Fin 0)"

text \<open>
  The shape of a banded table while row \<open>i\<close> is being filled and holds \<open>j\<close> entries, and the
  table of \<open>n\<close> complete rows.
\<close>

definition band_tab :: "(nat \<Rightarrow> nat \<Rightarrow> 'a) \<Rightarrow> nat \<Rightarrow> nat \<Rightarrow> 'a list list" where
  "band_tab f i j = map (\<lambda>r. map (f r) [0..<(if r < i then 7 else j)]) [0..<Suc i]"

definition band_full :: "(nat \<Rightarrow> nat \<Rightarrow> 'a) \<Rightarrow> nat \<Rightarrow> 'a list list" where
  "band_full f n = map (\<lambda>r. map (f r) [0..<7]) [0..<n]"

text \<open>
  Tie-breaking, as the specification words it: among candidates listed in priority order,
  each a tag with its candidate cost, the tag stored is the first whose cost equals the
  cell's cost, and the cell's cost is the least candidate cost.
\<close>

definition first_tag :: "pynum \<Rightarrow> (pynum \<times> pynum) list \<Rightarrow> pynum option" where
  "first_tag e cands = map_option fst (find (\<lambda>c. snd c = e) cands)"

definition least_cost :: "(pynum \<times> pynum) list \<Rightarrow> pynum" where
  "least_cost cands = foldr min_num (map snd cands) PInf"

text \<open>
  The tie-break property at cell \<open>(i, j)\<close> of finished tables \<open>E\<close>, \<open>P\<close>: unrestricted
  (candidates left, up, diagonal), and banded in band coordinates, where the last band
  column has no up neighbour and the first has no left neighbour.
\<close>

definition tie_break_unrestricted ::
  "string \<Rightarrow> string \<Rightarrow> int list list \<Rightarrow> pynum list list \<Rightarrow> nat \<Rightarrow> nat \<Rightarrow> bool" where
  "tie_break_unrestricted seq1 seq2 E P i j \<longleftrightarrow>
     (let cands = [(Fin 1, Fin (INDEL + E ! i ! (j - 1))),
                   (Fin 2, Fin (INDEL + E ! (i - 1) ! j)),
                   (Fin 0, Fin (diff (seq1 ! (i - 1)) (seq2 ! (j - 1)) + E ! (i - 1) ! (j - 1)))]
      in Fin (E ! i ! j) = least_cost cands \<and> first_tag (Fin (E ! i ! j)) cands = Some (P ! i ! j))"

definition tie_break_banded ::
  "string \<Rightarrow> string \<Rightarrow> pynum list list \<Rightarrow> pynum list list \<Rightarrow> nat \<Rightarrow> nat \<Rightarrow> bool" where
  "tie_break_banded seq1 seq2 E P i j \<longleftrightarrow>
     (case pyget seq2 (int i + int j - MAXINDELS - 1) of
        None \<Rightarrow> False
      | Some b \<Rightarrow>
          (let diag = add_num (diff (seq1 ! (i - 1)) b) (E ! (i - 1) ! j);
               cands =
                 (if j = 6 then [(Fin 1, add_num INDEL (E ! i ! (j - 1))), (Fin 0, diag)]
                  else if j = 0 then [(Fin 2, add_num INDEL (E ! (i - 1) ! (j + 1))), (Fin 0, diag)]
                  else [(Fin 1, add_num INDEL (E ! i ! (j - 1))),
                        (Fin 2, add_num INDEL (E ! (i - 1) ! (j + 1))), (Fin 0, diag)])
           in E ! i ! j = least_cost cands \<and> first_tag (E ! i ! j) cands = Some (P ! i ! j)))"

section \<open>The unrestricted builder computes the dynamic program\<close>

lemma pyget_nat: "pyget xs (int k) = (if k < length xs then Some (xs ! k) else None)"
  by (simp add: pyget_def pyindex_def)

lemma pyget2_nat:
  "pyget2 M (int r) (int c) =
     (if r < length M \<and> c < length (M ! r) then Some (M ! r ! c) else None)"
  by (simp add: pyget2_def pyget_nat)

lemma row_append_nat:
  "row_append M (int r) x = (if r < length M then Some (M[r := M ! r @ [x]]) else None)"
  by (simp add: row_append_def pyindex_def)

lemma for_each_append:
  "for_each body (xs @ ys) s =
     (case for_each body xs s of None \<Rightarrow> None | Some s' \<Rightarrow> for_each body ys s')"
  by (induction xs arbitrary: s) (auto split: option.splits)

lemma for_each_upt:
  assumes "\<And>k. a \<le> k \<Longrightarrow> k < b \<Longrightarrow> body k (S k) = Some (S (Suc k))" and "a \<le> b"
  shows "for_each body [a..<b] (S a) = Some (S b)"
  using assms(2,1)
proof (induction b rule: dec_induct)
  case base
  show ?case by simp
next
  case (step b)
  then show ?case by (simp add: for_each_append)
qed

lemma length_partial_tab [simp]: "length (partial_tab f n m i j) = Suc n"
  by (simp add: partial_tab_def)

lemma nth_partial_tab:
  "r \<le> n \<Longrightarrow> partial_tab f n m i j ! r =
     map (f r) [0..<(if r < i then Suc m else if r = i then j else 1)]"
  unfolding partial_tab_def by (simp del: upt_Suc)

lemma partial_tab_append:
  assumes "i \<le> n"
  shows "(partial_tab f n m i j)[i := partial_tab f n m i j ! i @ [f i j]] = partial_tab f n m i (Suc j)"
proof (rule nth_equalityI)
  show "length ((partial_tab f n m i j)[i := partial_tab f n m i j ! i @ [f i j]])
      = length (partial_tab f n m i (Suc j))"
    by simp
next
  fix r
  assume "r < length ((partial_tab f n m i j)[i := partial_tab f n m i j ! i @ [f i j]])"
  then have r: "r \<le> n" by simp
  show "(partial_tab f n m i j)[i := partial_tab f n m i j ! i @ [f i j]] ! r
      = partial_tab f n m i (Suc j) ! r"
  proof (cases "r = i")
    case True
    with assms show ?thesis by (simp add: nth_partial_tab)
  next
    case False
    with r show ?thesis by (simp add: nth_partial_tab)
  qed
qed

lemma partial_tab_next_row: "partial_tab f n m i (Suc m) = partial_tab f n m (Suc i) 1"
  unfolding partial_tab_def by (intro map_cong refl) auto

lemma int_Suc_minus_1: "int (Suc i) - 1 = int i"
  by simp

lemma E_spec_col0: "E_spec s t i 0 = 5 * int i"
  by (cases i) simp_all

lemma pyget2_partial_tab:
  assumes "r \<le> n" and "c < (if r < i then Suc m else if r = i then j else 1)"
  shows "pyget2 (partial_tab f n m i j) (int r) (int c) = Some (f r c)"
  using assms by (simp add: pyget2_nat nth_partial_tab del: upt_Suc)

lemma row_append_partial_tab:
  assumes "i \<le> n"
  shows "row_append (partial_tab f n m i j) (int i) (f i j) = Some (partial_tab f n m i (Suc j))"
  using assms by (simp add: row_append_nat partial_tab_append)

lemma unrestricted_cell_step:
  assumes "i < n" and "j < m" and "n \<le> length s" and "m \<le> length t"
  shows "unrestricted_cell s t (Suc i) (Suc j)
           (partial_tab (E_spec s t) n m (Suc i) (Suc j), partial_tab (P_tag s t) n m (Suc i) (Suc j))
         = Some (partial_tab (E_spec s t) n m (Suc i) (Suc (Suc j)),
                 partial_tab (P_tag s t) n m (Suc i) (Suc (Suc j)))"
proof -
  let ?E = "partial_tab (E_spec s t) n m (Suc i) (Suc j)"
  let ?E' = "partial_tab (E_spec s t) n m (Suc i) (Suc (Suc j))"
  let ?P = "partial_tab (P_tag s t) n m (Suc i) (Suc j)"
  let ?e = "E_spec s t (Suc i) (Suc j)"
  have a: "pyget s (int i) = Some (s ! i)" and b: "pyget t (int j) = Some (t ! j)"
    using assms by (simp_all add: pyget_nat)
  have d: "pyget2 ?E (int i) (int j) = Some (E_spec s t i j)"
    and l: "pyget2 ?E (int (Suc i)) (int j) = Some (E_spec s t (Suc i) j)"
    and u: "pyget2 ?E (int i) (int (Suc j)) = Some (E_spec s t i (Suc j))"
    using assms by (simp_all add: pyget2_partial_tab del: of_nat_Suc)
  have l': "pyget2 ?E' (int (Suc i)) (int j) = Some (E_spec s t (Suc i) j)"
    and u': "pyget2 ?E' (int i) (int (Suc j)) = Some (E_spec s t i (Suc j))"
    using assms by (simp_all add: pyget2_partial_tab del: of_nat_Suc)
  have e: "min (diff (s ! i) (t ! j) + E_spec s t i j)
             (min (INDEL + E_spec s t (Suc i) j) (INDEL + E_spec s t i (Suc j))) = ?e"
    by (simp add: INDEL_def)
  have appE: "row_append ?E (int (Suc i)) ?e = Some ?E'"
    using assms by (simp add: row_append_partial_tab del: of_nat_Suc E_spec.simps)
  have appP: "row_append ?P (int (Suc i)) (P_tag s t (Suc i) (Suc j))
      = Some (partial_tab (P_tag s t) n m (Suc i) (Suc (Suc j)))"
    using assms by (simp add: row_append_partial_tab del: of_nat_Suc)
  have tag: "P_tag s t (Suc i) (Suc j) =
      (if ?e = INDEL + E_spec s t (Suc i) j then Fin 1
       else if ?e = INDEL + E_spec s t i (Suc j) then Fin 2 else Fin 0)"
    by (simp add: P_tag_def del: E_spec.simps)
  show ?thesis
    unfolding unrestricted_cell_def
    using appP
    by (simp add: Let_def int_Suc_minus_1 a b d l u e appE l' u' tag
        del: of_nat_Suc E_spec.simps split: if_splits)
qed

lemma partial_tab_full: "partial_tab f n m (Suc n) j = full_tab f n m"
  unfolding partial_tab_def full_tab_def by (intro map_cong refl) auto

lemma unrestricted_row0_step:
  assumes "1 \<le> j"
  shows "unrestricted_row0 j (partial_tab (E_spec s t) n m 0 j, partial_tab (P_tag s t) n m 0 j)
         = Some (partial_tab (E_spec s t) n m 0 (Suc j), partial_tab (P_tag s t) n m 0 (Suc j))"
proof -
  have "P_tag s t 0 j = Fin 1" using assms by (simp add: P_tag_def)
  with row_append_partial_tab [of 0 n "P_tag s t" m j]
  have "row_append (partial_tab (P_tag s t) n m 0 j) 0 (Fin 1)
        = Some (partial_tab (P_tag s t) n m 0 (Suc j))" by simp
  moreover from row_append_partial_tab [of 0 n "E_spec s t" m j]
  have "row_append (partial_tab (E_spec s t) n m 0 j) 0 (5 * int j)
        = Some (partial_tab (E_spec s t) n m 0 (Suc j))" by simp
  ultimately show ?thesis by (simp add: unrestricted_row0_def)
qed

lemma unrestricted_inner_loop:
  assumes "i < n" and "n \<le> length s" and "m \<le> length t"
  shows "for_each (unrestricted_cell s t (Suc i)) [1..<Suc m]
           (partial_tab (E_spec s t) n m (Suc i) 1, partial_tab (P_tag s t) n m (Suc i) 1)
         = Some (partial_tab (E_spec s t) n m (Suc (Suc i)) 1,
                 partial_tab (P_tag s t) n m (Suc (Suc i)) 1)"
proof -
  let ?S = "\<lambda>j. (partial_tab (E_spec s t) n m (Suc i) j, partial_tab (P_tag s t) n m (Suc i) j)"
  have "for_each (unrestricted_cell s t (Suc i)) [1..<Suc m] (?S 1) = Some (?S (Suc m))"
  proof (rule for_each_upt)
    fix k assume "1 \<le> k" and "k < Suc m"
    then obtain j where k: "k = Suc j" and j: "j < m" by (cases k) auto
    show "unrestricted_cell s t (Suc i) k (?S k) = Some (?S (Suc k))"
      unfolding k using assms j by (intro unrestricted_cell_step)
  qed simp
  then show ?thesis by (simp only: partial_tab_next_row)
qed

lemma unrestricted_tables_eq:
  assumes "n \<le> length s" and "m \<le> length t"
  shows "unrestricted_tables s t (int n + 1) (int m + 1)
         = Some (full_tab (E_spec s t) n m, full_tab (P_tag s t) n m)"
proof -
  let ?S = "\<lambda>i j. (partial_tab (E_spec s t) n m i j, partial_tab (P_tag s t) n m i j)"
  have n1: "nat (int n + 1) = Suc n" and m1: "nat (int m + 1) = Suc m" by simp_all
  have init: "(map (\<lambda>i. [5 * int i]) [0..<Suc n], map (\<lambda>i. [Fin 0]) [0..<Suc n]) = ?S 0 1"
    unfolding partial_tab_def by (simp add: E_spec_col0 P_tag_def)
  have row0: "for_each unrestricted_row0 [1..<Suc m] (?S 0 1) = Some (?S 0 (Suc m))"
    by (rule for_each_upt [where S = "?S 0"]) (simp_all add: unrestricted_row0_step)
  have rows: "for_each (\<lambda>i. for_each (unrestricted_cell s t i) [1..<Suc m]) [1..<Suc n] (?S 1 1)
      = Some (?S (Suc n) 1)"
  proof (rule for_each_upt [where S = "\<lambda>i. ?S i 1"])
    fix k assume "1 \<le> k" and "k < Suc n"
    then obtain i where k: "k = Suc i" and i: "i < n" by (cases k) auto
    show "for_each (unrestricted_cell s t k) [1..<Suc m] (?S k 1) = Some (?S (Suc k) 1)"
      unfolding k using i assms by (rule unrestricted_inner_loop)
  qed simp
  show ?thesis
    unfolding unrestricted_tables_def n1 m1 Let_def init
    using row0 rows
    by (simp add: partial_tab_next_row partial_tab_full del: upt_Suc)
qed

lemma getEditDistanceUnrestricted_eq:
  assumes "0 \<le> MaxCharactersToAlign self"
  shows "getEditDistanceUnrestricted self s t =
     Some (Fin (E_spec s t (min (length s) (nat (MaxCharactersToAlign self)))
                           (min (length t) (nat (MaxCharactersToAlign self)))),
           full_tab (P_tag s t) (min (length s) (nat (MaxCharactersToAlign self)))
                                (min (length t) (nat (MaxCharactersToAlign self))))"
proof -
  let ?k = "MaxCharactersToAlign self"
  let ?n = "min (length s) (nat ?k)" and ?m = "min (length t) (nat ?k)"
  have n: "min (int (length s)) ?k = int ?n" and m: "min (int (length t)) ?k = int ?m"
    using assms by auto
  have tabs: "unrestricted_tables s t (int ?n + 1) (int ?m + 1)
      = Some (full_tab (E_spec s t) ?n ?m, full_tab (P_tag s t) ?n ?m)"
    by (rule unrestricted_tables_eq) simp_all
  have cell: "pyget2 (full_tab (E_spec s t) ?n ?m) (int ?n) (int ?m) = Some (E_spec s t ?n ?m)"
    unfolding partial_tab_full [of _ _ _ 0, symmetric] by (rule pyget2_partial_tab) simp_all
  show ?thesis
    unfolding getEditDistanceUnrestricted_def n m Let_def
    by (simp add: tabs cell del: of_nat_min)
qed

lemma top_seq_append: "top_seq (al @ bl) = top_seq al @ top_seq bl"
  by (induction al rule: top_seq.induct) simp_all

lemma bottom_seq_append: "bottom_seq (al @ bl) = bottom_seq al @ bottom_seq bl"
  by (induction al rule: bottom_seq.induct) simp_all

lemma alignment_cost_append: "alignment_cost (al @ bl) = alignment_cost al + alignment_cost bl"
  by (simp add: alignment_cost_def)

lemma col_cost_Both: "col_cost (Both a b) = diff a b"
  by (simp add: diff_def MATCH_def SUB_def)

lemma E_spec_prefix:
  "i \<le> length s \<Longrightarrow> j \<le> length t \<Longrightarrow> E_spec (s @ x) (t @ y) i j = E_spec s t i j"
  by (induction s t i j rule: E_spec.induct) (simp_all add: nth_append)

lemma E_spec_take:
  assumes "i \<le> length s" and "j \<le> length t"
  shows "E_spec (take i s) (take j t) i j = E_spec s t i j"
proof -
  have "E_spec (take i s @ drop i s) (take j t @ drop j t) i j = E_spec (take i s) (take j t) i j"
    using assms by (intro E_spec_prefix) simp_all
  then show ?thesis by simp
qed

lemma E_spec_up: "E_spec s t (Suc i) j \<le> 5 + E_spec s t i j"
  by (cases j) (simp_all add: E_spec_col0)

lemma E_spec_left: "E_spec s t i (Suc j) \<le> 5 + E_spec s t i j"
  by (cases i) simp_all

lemma E_spec_diag: "E_spec s t (Suc i) (Suc j) \<le> diff (s ! i) (t ! j) + E_spec s t i j"
  by simp

lemma alignment_cost_lower:
  "E_spec (top_seq al) (bottom_seq al) (length (top_seq al)) (length (bottom_seq al))
     \<le> alignment_cost al"
proof (induction al rule: rev_induct)
  case Nil
  show ?case by (simp add: alignment_cost_def)
next
  case (snoc c al)
  let ?s = "top_seq al" and ?t = "bottom_seq al"
  let ?n = "length ?s" and ?m = "length ?t"
  show ?case
  proof (cases c)
    case (Both a b)
    have "E_spec (?s @ [a]) (?t @ [b]) (Suc ?n) (Suc ?m)
        \<le> diff ((?s @ [a]) ! ?n) ((?t @ [b]) ! ?m) + E_spec (?s @ [a]) (?t @ [b]) ?n ?m"
      by (rule E_spec_diag)
    also have "\<dots> = diff a b + E_spec ?s ?t ?n ?m"
      by (simp add: E_spec_prefix)
    also have "\<dots> \<le> col_cost c + alignment_cost al"
      using snoc.IH Both by (simp add: col_cost_Both del: col_cost.simps)
    finally show ?thesis
      using Both by (simp add: top_seq_append bottom_seq_append alignment_cost_append alignment_cost_def)
  next
    case (Del a)
    have "E_spec (?s @ [a]) ?t (Suc ?n) ?m \<le> 5 + E_spec (?s @ [a]) ?t ?n ?m"
      by (rule E_spec_up)
    also have "E_spec (?s @ [a]) ?t ?n ?m = E_spec ?s ?t ?n ?m"
      using E_spec_prefix [of ?n ?s ?m ?t "[a]" "[]"] by simp
    finally show ?thesis
      using snoc.IH Del
      by (simp add: top_seq_append bottom_seq_append alignment_cost_append alignment_cost_def)
  next
    case (Ins b)
    have "E_spec ?s (?t @ [b]) ?n (Suc ?m) \<le> 5 + E_spec ?s (?t @ [b]) ?n ?m"
      by (rule E_spec_left)
    also have "E_spec ?s (?t @ [b]) ?n ?m = E_spec ?s ?t ?n ?m"
      using E_spec_prefix [of ?n ?s ?m ?t "[]" "[b]"] by simp
    finally show ?thesis
      using snoc.IH Ins
      by (simp add: top_seq_append bottom_seq_append alignment_cost_append alignment_cost_def)
  qed
qed

lemma top_seq_map_Ins [simp]: "top_seq (map Ins xs) = []" and bottom_seq_map_Ins [simp]: "bottom_seq (map Ins xs) = xs"
  and top_seq_map_Del [simp]: "top_seq (map Del xs) = xs" and bottom_seq_map_Del [simp]: "bottom_seq (map Del xs) = []"
  by (induction xs) simp_all

lemma alignment_cost_map_Ins: "alignment_cost (map Ins xs) = 5 * int (length xs)"
  and alignment_cost_map_Del: "alignment_cost (map Del xs) = 5 * int (length xs)"
  by (induction xs) (simp_all add: alignment_cost_def)

lemma alignment_exists:
  "i \<le> length s \<Longrightarrow> j \<le> length t \<Longrightarrow>
   \<exists>al. top_seq al = take i s \<and> bottom_seq al = take j t \<and> alignment_cost al = E_spec s t i j"
proof (induction s t i j rule: E_spec.induct)
  case (1 s t j)
  then show ?case
    by (intro exI [of _ "map Ins (take j t)"]) (simp add: alignment_cost_map_Ins)
next
  case (2 s t i)
  then show ?case
    by (intro exI [of _ "map Del (take (Suc i) s)"]) (simp add: alignment_cost_map_Del del: take_Suc)
next
  case (3 s t i j)
  from 3 obtain ad where ad: "top_seq ad = take i s" "bottom_seq ad = take j t"
      "alignment_cost ad = E_spec s t i j" by auto
  from 3 obtain al where al: "top_seq al = take (Suc i) s" "bottom_seq al = take j t"
      "alignment_cost al = E_spec s t (Suc i) j" by auto
  from 3 obtain au where au: "top_seq au = take i s" "bottom_seq au = take (Suc j) t"
      "alignment_cost au = E_spec s t i (Suc j)" by auto
  from 3 have i: "i < length s" and j: "j < length t" by simp_all
  have "E_spec s t (Suc i) (Suc j) = diff (s ! i) (t ! j) + E_spec s t i j
      \<or> E_spec s t (Suc i) (Suc j) = 5 + E_spec s t (Suc i) j
      \<or> E_spec s t (Suc i) (Suc j) = 5 + E_spec s t i (Suc j)"
    by (simp add: min_def)
  then consider
      (diag) "E_spec s t (Suc i) (Suc j) = diff (s ! i) (t ! j) + E_spec s t i j"
    | (left) "E_spec s t (Suc i) (Suc j) = 5 + E_spec s t (Suc i) j"
    | (up) "E_spec s t (Suc i) (Suc j) = 5 + E_spec s t i (Suc j)"
    by blast
  then show ?case
  proof cases
    case diag
    with ad i j show ?thesis
      by (intro exI [of _ "ad @ [Both (s ! i) (t ! j)]"])
        (simp add: top_seq_append bottom_seq_append alignment_cost_append take_Suc_conv_app_nth
          alignment_cost_def col_cost_Both del: col_cost.simps E_spec.simps)
  next
    case left
    with al i j show ?thesis
      by (intro exI [of _ "al @ [Ins (t ! j)]"])
        (simp add: top_seq_append bottom_seq_append alignment_cost_append take_Suc_conv_app_nth
          alignment_cost_def del: E_spec.simps)
  next
    case up
    with au i j show ?thesis
      by (intro exI [of _ "au @ [Del (s ! i)]"])
        (simp add: top_seq_append bottom_seq_append alignment_cost_append take_Suc_conv_app_nth
          alignment_cost_def del: E_spec.simps)
  qed
qed

section \<open>The banded builder computes its closed form\<close>

lemma length_band_tab [simp]: "length (band_tab f i j) = Suc i"
  by (simp add: band_tab_def)

lemma nth_band_tab:
  "r \<le> i \<Longrightarrow> band_tab f i j ! r = map (f r) [0..<(if r < i then 7 else j)]"
  unfolding band_tab_def by (simp del: upt_Suc)

lemma band_tab_append:
  "(band_tab f i j)[i := band_tab f i j ! i @ [f i j]] = band_tab f i (Suc j)"
proof (rule nth_equalityI)
  show "length ((band_tab f i j)[i := band_tab f i j ! i @ [f i j]]) = length (band_tab f i (Suc j))"
    by simp
next
  fix r
  assume "r < length ((band_tab f i j)[i := band_tab f i j ! i @ [f i j]])"
  then have r: "r \<le> i" by simp
  show "(band_tab f i j)[i := band_tab f i j ! i @ [f i j]] ! r = band_tab f i (Suc j) ! r"
    using r by (cases "r = i") (simp_all add: nth_band_tab)
qed

lemma band_full_new_row: "band_full f i @ [[]] = band_tab f i 0"
  unfolding band_full_def band_tab_def by simp

lemma band_tab_full: "band_tab f i 7 = band_full f (Suc i)"
  unfolding band_full_def band_tab_def by (intro map_cong refl) auto

lemma pyget2_band_tab:
  assumes "r \<le> i" and "c < (if r < i then 7 else j)" and "ri = int r" and "ci = int c"
  shows "pyget2 (band_tab f i j) ri ci = Some (f r c)"
  using assms by (simp add: pyget2_nat nth_band_tab del: upt_Suc)

lemma row_append_band_tab:
  assumes "ri = int i"
  shows "row_append (band_tab f i j) ri (f i j) = Some (band_tab f i (Suc j))"
  using assms by (simp add: row_append_nat band_tab_append)

lemma pyget_last: "t \<noteq> [] \<Longrightarrow> pyget t (- 1) = Some (last t)"
  by (cases t rule: rev_cases) (simp_all add: pyget_def pyindex_def)

lemma pyget_band_char:
  assumes "band_valid t i j" and "t \<noteq> []" and "k = int i + int j - MAXINDELS - 1"
  shows "pyget t k = Some (band_char t i j)"
proof (cases "i + j = 3")
  case True
  with assms have "k = - 1" by (simp add: MAXINDELS_def)
  with assms True show ?thesis
    by (simp add: pyget_last band_char_def)
next
  case False
  with assms have "k = int (i + j - 4)" and "i + j - 4 < length t"
    by (auto simp: MAXINDELS_def band_valid_def)
  with False show ?thesis by (simp add: pyget_nat band_char_def)
qed

lemma band_cond:
  "(int (length t) \<ge> int i + int j - MAXINDELS \<and> int i + int j - MAXINDELS \<ge> 0) = band_valid t i j"
  by (auto simp: band_valid_def MAXINDELS_def)

lemma band_E_invalid: "\<not> band_valid t i j \<Longrightarrow> band_E s t i j = PInf"
  by (cases i) simp_all

lemma banded_cell_step:
  assumes j: "j < 7" and i: "i \<le> length s" and t: "t \<noteq> [] \<or> i = 0"
  shows "banded_cell s t 7 i j (band_tab (band_E s t) i j, band_tab (band_P s t) i j)
         = Some (band_tab (band_E s t) i (Suc j), band_tab (band_P s t) i (Suc j))"
proof -
  let ?E = "band_tab (band_E s t) i j" and ?P = "band_tab (band_P s t) i j"
  let ?E' = "band_tab (band_E s t) i (Suc j)" and ?P' = "band_tab (band_P s t) i (Suc j)"
  have appE: "row_append ?E (int i) (band_E s t i j) = Some ?E'"
    and appP: "row_append ?P (int i) (band_P s t i j) = Some ?P'"
    by (simp_all add: row_append_band_tab)
  show ?thesis
  proof (cases "band_valid t i j")
    case False
    then have "band_E s t i j = PInf" and "band_P s t i j = PInf"
      by (simp_all add: band_E_invalid band_P_def)
    with appE appP show ?thesis
      unfolding banded_cell_def band_cond prod.case if_not_P [OF False] by simp
  next
    case valid: True
    show ?thesis
    proof (cases i)
      case 0
      with valid have "band_E s t i j = Fin (5 * (int j - MAXINDELS))" and "band_P s t i j = Fin 1"
        by (simp_all add: band_P_def MAXINDELS_def)
      with appE appP show ?thesis
        unfolding banded_cell_def band_cond prod.case if_P [OF valid] if_P [OF 0] by simp
    next
      case (Suc i')
      then have inz: "i \<noteq> 0" by simp
      from Suc t have tne: "t \<noteq> []" by simp
      have a: "pyget s (int i - 1) = Some (s ! i')"
        using i Suc by (simp add: pyget_nat)
      have b: "pyget t (int i + int j - MAXINDELS - 1) = Some (band_char t i j)"
        using valid tne by (rule pyget_band_char) simp
      have d: "pyget2 ?E (int i - 1) (int j) = Some (band_E s t i' j)"
        using j Suc by (intro pyget2_band_tab) simp_all
      have l: "0 < j \<Longrightarrow> pyget2 ?E (int i) (int j - 1) = Some (band_E s t i (j - 1))"
        by (rule pyget2_band_tab) simp_all
      have u: "j < 6 \<Longrightarrow> pyget2 ?E (int i - 1) (int j + 1) = Some (band_E s t i' (j + 1))"
        using Suc by (intro pyget2_band_tab) simp_all
      note start = banded_cell_def band_cond prod.case if_P [OF valid] if_not_P [OF inz]
      consider (last) "j = 6" | (first) "j = 0" | (mid) "0 < j" "j < 6"
        using j by linarith
      then show ?thesis
      proof cases
        case last
        then have c: "int j = 7 - 1" by simp
        from last have l6: "pyget2 ?E (int i) (int j - 1) = Some (band_E s t i (j - 1))"
          by (intro l) simp
        have e: "min_num (add_num (diff (s ! i') (band_char t i j)) (band_E s t i' j))
                   (add_num INDEL (band_E s t i (j - 1))) = band_E s t i j"
          using valid Suc last by simp
        have p: "(if band_E s t i j = add_num INDEL (band_E s t i (j - 1)) then Fin 1 else Fin 0)
            = band_P s t i j"
          using valid Suc last by (simp add: band_P_def del: band_E.simps)
        show ?thesis
          unfolding start if_P [OF c]
          by (simp only: a b d l6 Let_def e p appE appP bind.bind_lunit)
      next
        case first
        then have c: "int j \<noteq> 7 - 1" by simp
        from first have u0: "pyget2 ?E (int i - 1) (int j + 1) = Some (band_E s t i' (j + 1))"
          by (intro u) simp
        have e: "min_num (add_num (diff (s ! i') (band_char t i j)) (band_E s t i' j))
                   (add_num INDEL (band_E s t i' (j + 1))) = band_E s t i j"
          using valid Suc first by simp
        have p: "(if band_E s t i j = add_num INDEL (band_E s t i' (j + 1)) then Fin 2 else Fin 0)
            = band_P s t i j"
          using valid Suc first by (simp add: band_P_def del: band_E.simps)
        show ?thesis
          unfolding start if_not_P [OF c] if_P [OF first]
          by (simp only: a b d u0 Let_def e p appE appP bind.bind_lunit)
      next
        case mid
        then have c: "int j \<noteq> 7 - 1" and jnz: "j \<noteq> 0" by simp_all
        from mid have lm: "pyget2 ?E (int i) (int j - 1) = Some (band_E s t i (j - 1))"
          and um: "pyget2 ?E (int i - 1) (int j + 1) = Some (band_E s t i' (j + 1))"
          by (simp_all add: l u)
        have e: "min_num (add_num (diff (s ! i') (band_char t i j)) (band_E s t i' j))
                   (min_num (add_num INDEL (band_E s t i (j - 1)))
                            (add_num INDEL (band_E s t i' (j + 1)))) = band_E s t i j"
          using valid Suc mid by simp
        show ?thesis
        proof (cases "band_E s t i j = add_num INDEL (band_E s t i (j - 1))")
          case True
          then have p: "Fin 1 = band_P s t i j"
            using valid Suc mid by (simp add: band_P_def del: band_E.simps)
          show ?thesis
            unfolding start if_not_P [OF c] if_not_P [OF jnz]
            by (simp only: a b d lm um Let_def e if_P [OF True] p appE appP bind.bind_lunit)
        next
          case False
          then have p: "(if band_E s t i j = add_num INDEL (band_E s t i' (j + 1)) then Fin 2 else Fin 0)
              = band_P s t i j"
            using valid Suc mid by (simp add: band_P_def del: band_E.simps)
          show ?thesis
            unfolding start if_not_P [OF c] if_not_P [OF jnz]
            by (simp only: a b d lm um Let_def e if_not_P [OF False] p appE appP bind.bind_lunit)
        qed
      qed
    qed
  qed
qed

lemma banded_row_step:
  assumes "i \<le> length s" and "t \<noteq> [] \<or> i = 0"
  shows "banded_row s t 7 i (band_full (band_E s t) i, band_full (band_P s t) i)
         = Some (band_full (band_E s t) (Suc i), band_full (band_P s t) (Suc i))"
proof -
  let ?S = "\<lambda>j. (band_tab (band_E s t) i j, band_tab (band_P s t) i j)"
  have "for_each (banded_cell s t 7 i) [0..<7] (?S 0) = Some (?S 7)"
    using assms by (intro for_each_upt [where S = ?S] banded_cell_step) simp_all
  then show ?thesis
    by (simp add: banded_row_def band_full_new_row band_tab_full)
qed

lemma banded_tables_eq:
  assumes "n \<le> length s" and "t \<noteq> [] \<or> n = 0"
  shows "banded_tables s t (int n + 1) 7
         = Some (band_full (band_E s t) (Suc n), band_full (band_P s t) (Suc n))"
proof -
  let ?S = "\<lambda>i. (band_full (band_E s t) i, band_full (band_P s t) i)"
  have n1: "nat (int n + 1) = Suc n" by simp
  have "for_each (banded_row s t 7) [0..<Suc n] (?S 0) = Some (?S (Suc n))"
  proof (rule for_each_upt [where S = ?S])
    fix k assume "0 \<le> k" and "k < Suc n"
    with assms show "banded_row s t 7 k (?S k) = Some (?S (Suc k))"
      by (intro banded_row_step) auto
  qed simp
  then show ?thesis
    unfolding banded_tables_def n1 by (simp add: band_full_def)
qed

lemma min_num_PInf: "min_num x y = PInf \<longleftrightarrow> x = PInf \<and> y = PInf"
  by (cases x; cases y) simp_all

lemma add_num_PInf: "add_num c x = PInf \<longleftrightarrow> x = PInf"
  by (cases x) simp_all

lemma band_E_finite: "band_valid t i j \<Longrightarrow> band_E s t i j \<noteq> PInf"
proof (induction i arbitrary: j)
  case 0
  then show ?case by simp
next
  case (Suc i)
  show ?case
  proof (cases "4 \<le> Suc i + j")
    case True
    with Suc.prems have "band_valid t i j" by (simp add: band_valid_def)
    then have "band_E s t i j \<noteq> PInf" by (rule Suc.IH)
    with Suc.prems show ?thesis
      by (auto simp add: band_E.simps(2) [of s t i j] min_num_PInf add_num_PInf
          simp del: band_E.simps)
  next
    case False
    with Suc.prems have "band_valid t i (j + 1)" and "j \<noteq> 6"
      by (simp_all add: band_valid_def)
    from Suc.IH [OF this(1)] Suc.prems \<open>j \<noteq> 6\<close> show ?thesis
      by (auto simp add: band_E.simps(2) [of s t i j] min_num_PInf add_num_PInf
          simp del: band_E.simps)
  qed
qed

lemma band_P_PInf: "band_P s t i j = PInf \<longleftrightarrow> \<not> band_valid t i j"
  by (simp add: band_P_def)

lemma pyget2_band_full:
  "r < n \<Longrightarrow> c < 7 \<Longrightarrow> pyget2 (band_full f n) (int r) (int c) = Some (f r c)"
  by (simp add: pyget2_nat band_full_def del: upt_Suc)

lemma int_minus_1: "0 < k \<Longrightarrow> int k - 1 = int (k - 1)"
  by simp

lemma banded_ret_scan:
  assumes "pyget2 E r (int j0) = Some v" and "v \<noteq> PInf"
    and "\<And>j. j0 < j \<Longrightarrow> j \<le> k \<Longrightarrow> pyget2 E r (int j) = Some PInf"
    and "j0 \<le> k" and "pyget2 E r (int k) = Some x"
  shows "banded_ret E r (int k) x = Some v"
  using assms(4,3,5)
proof (induction k arbitrary: x rule: dec_induct)
  case base
  with assms(1,2) show ?case by (simp add: banded_ret.simps [of E r "int j0"])
next
  case (step k)
  from step.prems(1) [of "Suc k"] step.hyps step.prems(2) have x: "x = PInf" by simp
  have "banded_ret E r (int k) (if k = j0 then v else PInf) = Some v"
    using step.hyps assms(1) step.prems(1)
    by (intro step.IH) auto
  moreover have "pyget2 E r (int k) = Some (if k = j0 then v else PInf)"
    using step.hyps assms(1) step.prems(1) [of k] by auto
  ultimately show ?case
    unfolding x
    by (simp add: banded_ret.simps [of E r "int (Suc k)"] int_Suc_minus_1 del: of_nat_Suc)
qed

lemma alignedBanded_start_scan:
  assumes "pyget2 P r (int j0) = Some v" and "v \<noteq> PInf"
    and "\<And>j. j0 < j \<Longrightarrow> j \<le> k \<Longrightarrow> pyget2 P r (int j) = Some PInf"
    and "j0 \<le> k"
  shows "alignedBanded_start P r (int k) = Some (int j0)"
  using assms(4,3)
proof (induction k rule: dec_induct)
  case base
  with assms(1,2) show ?case by (simp add: alignedBanded_start.simps [of P r "int j0"])
next
  case (step k)
  from step.prems [of "Suc k"] step.hyps have x: "pyget2 P r (int (Suc k)) = Some PInf" by simp
  have "alignedBanded_start P r (int k) = Some (int j0)"
    using step.prems by (intro step.IH) auto
  then show ?case
    by (simp add: alignedBanded_start.simps [of P r "int (Suc k)"] x int_Suc_minus_1
        del: of_nat_Suc)
qed

section \<open>Returned cost, terminal cell and tie-breaking\<close>

lemma nth_full_tab: "i \<le> n \<Longrightarrow> j \<le> m \<Longrightarrow> full_tab f n m ! i ! j = f i j"
  unfolding full_tab_def by (simp del: upt_Suc)

lemma nth_band_full: "i < n \<Longrightarrow> j < 7 \<Longrightarrow> band_full f n ! i ! j = f i j"
  unfolding band_full_def by (simp del: upt_Suc)

lemma length_band_full [simp]: "length (band_full f n) = n"
  by (simp add: band_full_def)

lemma length_band_full_row: "i < n \<Longrightarrow> length (band_full f n ! i) = 7"
  by (simp add: band_full_def)

lemma getEditDistanceBanded_eq:
  assumes s: "s = pyprefix seq1 (MaxCharactersToAlign self)"
    and t: "t = pyprefix seq2 (MaxCharactersToAlign self)"
    and feasible: "abs (int (length s) - int (length t)) \<le> MAXINDELS"
    and ne: "t \<noteq> [] \<or> s = []"
  shows "getEditDistanceBanded self seq1 seq2 =
     Some (band_E s t (length s) (length t + 3 - length s),
           band_full (band_P s t) (Suc (length s)))"
proof -
  let ?n = "length s" and ?m = "length t"
  let ?j = "?m + 3 - ?n"
  let ?E = "band_full (band_E s t) (Suc ?n)"
  from feasible have mn: "?m \<le> ?n + 3" "?n \<le> ?m + 3"
    by (simp_all add: MAXINDELS_def)
  have tabs: "banded_tables s t (int ?n + 1) 7 = Some (?E, band_full (band_P s t) (Suc ?n))"
    using ne by (intro banded_tables_eq) auto
  have cell: "\<And>j. j < 7 \<Longrightarrow> pyget2 ?E (int ?n) (int j) = Some (band_E s t ?n j)"
    by (rule pyget2_band_full) simp_all
  have "banded_ret ?E (int ?n) (int 6) (band_E s t ?n 6) = Some (band_E s t ?n ?j)"
  proof (rule banded_ret_scan [where ?j0.0 = ?j])
    show "pyget2 ?E (int ?n) (int ?j) = Some (band_E s t ?n ?j)"
      using mn by (intro cell) simp
    show "band_E s t ?n ?j \<noteq> PInf"
      using mn by (intro band_E_finite) (simp add: band_valid_def)
    show "pyget2 ?E (int ?n) (int j) = Some PInf" if "?j < j" "j \<le> 6" for j
    proof -
      from that mn have "\<not> band_valid t ?n j" unfolding band_valid_def by linarith
      then have "band_E s t ?n j = PInf" by (rule band_E_invalid)
      with that show ?thesis by (simp add: cell)
    qed
    show "?j \<le> 6" using mn by simp
    show "pyget2 ?E (int ?n) (int 6) = Some (band_E s t ?n 6)" by (rule cell) simp
  qed
  then have ret: "banded_ret ?E (int ?n) 6 (band_E s t ?n 6) = Some (band_E s t ?n ?j)"
    by simp
  from cell [of 6] have c6: "pyget2 ?E (int ?n) 6 = Some (band_E s t ?n 6)" by simp
  from feasible have nf: "\<not> abs (int ?n - int ?m) > MAXINDELS" by simp
  have k7: "2 * MAXINDELS + 1 = 7" by (simp add: MAXINDELS_def)
  show ?thesis
    unfolding getEditDistanceBanded_def s [symmetric] t [symmetric] Let_def k7 if_not_P [OF nf]
    by (simp add: tabs c6 ret)
qed

lemma pyprefix_nonempty: "xs \<noteq> [] \<Longrightarrow> 0 < k \<Longrightarrow> pyprefix xs k \<noteq> []"
  by (cases xs) (auto simp: pyprefix_def nat_eq_iff)

lemma alignedBanded_start_eq:
  assumes mn: "length t \<le> n + 3" "n \<le> length t + 3"
  shows "alignedBanded_start (band_full (band_P s t) (Suc n)) (int n) 6
         = Some (int (length t + 3 - n))"
proof -
  let ?P = "band_full (band_P s t) (Suc n)"
  let ?j = "length t + 3 - n"
  have cell: "\<And>j. j < 7 \<Longrightarrow> pyget2 ?P (int n) (int j) = Some (band_P s t n j)"
    by (rule pyget2_band_full) simp_all
  have "alignedBanded_start ?P (int n) (int 6) = Some (int ?j)"
  proof (rule alignedBanded_start_scan)
    show "pyget2 ?P (int n) (int ?j) = Some (band_P s t n ?j)"
      using mn by (intro cell) simp
    from mn have "band_valid t n ?j" by (simp add: band_valid_def)
    then show "band_P s t n ?j \<noteq> PInf" by (simp add: band_P_PInf)
    show "pyget2 ?P (int n) (int j) = Some PInf" if "?j < j" "j \<le> 6" for j
    proof -
      from that mn have "\<not> band_valid t n j" unfolding band_valid_def by linarith
      then have "band_P s t n j = PInf" by (simp add: band_P_PInf)
      with that show ?thesis by (simp add: cell)
    qed
    show "?j \<le> 6" using mn by simp
  qed
  then show ?thesis by simp
qed

lemma alignedBanded_eq:
  assumes mn: "length t \<le> n + 3" "n \<le> length t + 3"
  shows "alignedBanded seq1 seq2 (band_full (band_P s t) (Suc n)) =
     (case alignedBanded_loop seq1 seq2 (band_full (band_P s t) (Suc n))
             (int n) (int (length t + 3 - n)) [] [] of
        None \<Rightarrow> None
      | Some (a1, a2) \<Rightarrow> Some (pyprefix a1 100, pyprefix a2 100))"
proof -
  let ?P = "band_full (band_P s t) (Suc n)"
  have row: "pyget ?P (int n) = Some (?P ! n)"
    by (simp add: pyget_nat)
  have len: "int (length (?P ! n)) - 1 = 6"
    by (simp add: length_band_full_row)
  have i: "int (length ?P) - 1 = int n" by simp
  show ?thesis
    unfolding alignedBanded_def Let_def i
    by (simp add: row len alignedBanded_start_eq [OF mn] split: option.splits del: of_nat_Suc)
qed

lemma min_num_PInf_right [simp]: "min_num x PInf = x"
  by (cases x) simp_all

lemma min_num_rotate: "min_num l (min_num u d) = min_num d (min_num l u)"
  by (cases d; cases l; cases u) (simp_all add: min.commute min.left_commute)

lemma min_num_commute: "min_num x y = min_num y x"
  by (cases x; cases y) (simp_all add: min.commute)

lemma min_num_cases: "min_num x y = x \<or> min_num x y = y"
  by (cases x; cases y) (simp_all add: min_def)

lemma unrestricted_priority:
  assumes "1 \<le> i" "i \<le> n" "1 \<le> j" "j \<le> m"
  shows "let E = full_tab (E_spec s t) n m; P = full_tab (P_tag s t) n m;
             cands = [(Fin 1, Fin (INDEL + E ! i ! (j - 1))),
                      (Fin 2, Fin (INDEL + E ! (i - 1) ! j)),
                      (Fin 0, Fin (diff (s ! (i - 1)) (t ! (j - 1)) + E ! (i - 1) ! (j - 1)))]
         in Fin (E ! i ! j) = least_cost cands \<and> first_tag (Fin (E ! i ! j)) cands = Some (P ! i ! j)"
proof -
  from assms obtain i' j' where ij: "i = Suc i'" "j = Suc j'"
    by (cases i; cases j) auto
  with assms have b: "i' \<le> n" "j' \<le> m" "Suc i' \<le> n" "Suc j' \<le> m" by simp_all
  show ?thesis
    unfolding ij Let_def using b
    by (simp add: nth_full_tab least_cost_def first_tag_def P_tag_def INDEL_def min_def)
qed

lemma priority2:
  assumes "e = min_num d l" and "p = (if e = l then a else b)"
  shows "e = least_cost [(a, l), (b, d)] \<and> first_tag e [(a, l), (b, d)] = Some p"
  using assms min_num_cases [of d l]
  by (auto simp: least_cost_def first_tag_def min_num_commute)

lemma priority3:
  assumes "e = min_num d (min_num l u)" and "p = (if e = l then a else if e = u then b else c)"
  shows "e = least_cost [(a, l), (b, u), (c, d)] \<and>
         first_tag e [(a, l), (b, u), (c, d)] = Some p"
  using assms min_num_cases [of d "min_num l u"] min_num_cases [of l u]
  by (auto simp: least_cost_def first_tag_def min_num_rotate)

lemma banded_priority:
  assumes i: "1 \<le> i" "i \<le> n" and j: "j \<le> 6" and valid: "band_valid t i j" and tne: "t \<noteq> []"
  shows "\<exists>b. pyget t (int i + int j - MAXINDELS - 1) = Some b \<and>
     (let E = band_full (band_E s t) (Suc n); P = band_full (band_P s t) (Suc n);
          diag = add_num (diff (s ! (i - 1)) b) (E ! (i - 1) ! j);
          cands = (if j = 6 then [(Fin 1, add_num INDEL (E ! i ! (j - 1))), (Fin 0, diag)]
                   else if j = 0 then [(Fin 2, add_num INDEL (E ! (i - 1) ! (j + 1))), (Fin 0, diag)]
                   else [(Fin 1, add_num INDEL (E ! i ! (j - 1))),
                         (Fin 2, add_num INDEL (E ! (i - 1) ! (j + 1))), (Fin 0, diag)])
      in E ! i ! j = least_cost cands \<and> first_tag (E ! i ! j) cands = Some (P ! i ! j))"
proof -
  from i obtain i' where i': "i = Suc i'" by (cases i) auto
  have b: "pyget t (int i + int j - MAXINDELS - 1) = Some (band_char t i j)"
    using valid tne by (rule pyget_band_char) simp
  let ?E = "band_full (band_E s t) (Suc n)" and ?P = "band_full (band_P s t) (Suc n)"
  let ?d = "add_num (diff (s ! (i - 1)) (band_char t i j)) (?E ! (i - 1) ! j)"
  let ?l = "add_num INDEL (?E ! i ! (j - 1))"
  let ?u = "add_num INDEL (?E ! (i - 1) ! (j + 1))"
  have cells: "?E ! i ! j = band_E s t i j" "?P ! i ! j = band_P s t i j"
    "?E ! i' ! j = band_E s t i' j" "i - 1 = i'"
    and cl: "0 < j \<Longrightarrow> ?E ! i ! (j - 1) = band_E s t i (j - 1)"
    and cu: "j < 6 \<Longrightarrow> ?E ! i' ! (j + 1) = band_E s t i' (j + 1)"
    using i j i' by (simp_all add: nth_band_full)
  consider (last) "j = 6" | (first) "j = 0" | (mid) "0 < j" "j < 6"
    using j by linarith
  then have "let cands = (if j = 6 then [(Fin 1, ?l), (Fin 0, ?d)]
                   else if j = 0 then [(Fin 2, ?u), (Fin 0, ?d)]
                   else [(Fin 1, ?l), (Fin 2, ?u), (Fin 0, ?d)])
      in ?E ! i ! j = least_cost cands \<and> first_tag (?E ! i ! j) cands = Some (?P ! i ! j)"
  proof cases
    case last
    then have c: "?E ! i ! (j - 1) = band_E s t i (j - 1)" by (intro cl) simp
    have e: "band_E s t i j = min_num (add_num (diff (s ! i') (band_char t i j)) (band_E s t i' j))
        (add_num INDEL (band_E s t i (j - 1)))"
      using valid last unfolding i' by simp
    have p: "band_P s t i j =
        (if band_E s t i j = add_num INDEL (band_E s t i (j - 1)) then Fin 1 else Fin 0)"
      using valid last i' by (simp add: band_P_def del: band_E.simps)
    show ?thesis
      unfolding Let_def if_P [OF last] cells c by (rule priority2 [OF e p])
  next
    case first
    then have c: "?E ! i' ! (j + 1) = band_E s t i' (j + 1)" by (intro cu) simp
    from first have n6: "j \<noteq> 6" by simp
    have e: "band_E s t i j = min_num (add_num (diff (s ! i') (band_char t i j)) (band_E s t i' j))
        (add_num INDEL (band_E s t i' (j + 1)))"
      using valid first unfolding i' by simp
    have p: "band_P s t i j =
        (if band_E s t i j = add_num INDEL (band_E s t i' (j + 1)) then Fin 2 else Fin 0)"
      using valid first i' by (simp add: band_P_def del: band_E.simps)
    show ?thesis
      unfolding Let_def if_not_P [OF n6] if_P [OF first] cells c by (rule priority2 [OF e p])
  next
    case mid
    note c = cl [OF mid(1)] cu [OF mid(2)]
    from mid have n6: "j \<noteq> 6" and n0: "j \<noteq> 0" by simp_all
    have e: "band_E s t i j = min_num (add_num (diff (s ! i') (band_char t i j)) (band_E s t i' j))
        (min_num (add_num INDEL (band_E s t i (j - 1))) (add_num INDEL (band_E s t i' (j + 1))))"
      using valid mid unfolding i' by simp
    have p: "band_P s t i j =
        (if band_E s t i j = add_num INDEL (band_E s t i (j - 1)) then Fin 1
         else if band_E s t i j = add_num INDEL (band_E s t i' (j + 1)) then Fin 2 else Fin 0)"
      using valid mid i' by (simp add: band_P_def del: band_E.simps)
    show ?thesis
      unfolding Let_def if_not_P [OF n6] if_not_P [OF n0] cells c by (rule priority3 [OF e p])
  qed
  with b show ?thesis
    unfolding Let_def by blast
qed

lemma pyprefix_take: "0 \<le> k \<Longrightarrow> pyprefix xs k = take (nat k) xs"
  by (simp add: pyprefix_def)

section \<open>Traceback\<close>

subsection \<open>Identical sequences\<close>

lemma diff_lower: "- 3 \<le> diff a b"
  by (simp add: diff_def MATCH_def SUB_def)

lemma E_spec_lower: "- 3 * int (min i j) \<le> E_spec s t i j"
proof (induction s t i j rule: E_spec.induct)
  case (3 s t i j)
  from diff_lower [of "s ! i" "t ! j"] 3 show ?case
    by (simp add: min_def split: if_splits)
qed simp_all

lemma E_spec_identical: "i \<le> length s \<Longrightarrow> E_spec s s i i = - 3 * int i"
proof (induction i)
  case 0
  show ?case by simp
next
  case (Suc i)
  from E_spec_lower [of "Suc i" i s s] E_spec_lower [of i "Suc i" s s] Suc
  show ?case by (simp add: diff_def MATCH_def min_def)
qed

lemma P_tag_identical: "i \<le> length s \<Longrightarrow> 0 < i \<Longrightarrow> P_tag s s i i = Fin 0"
proof -
  assume i: "i \<le> length s" "0 < i"
  then obtain i' where i': "i = Suc i'" by (cases i) auto
  from E_spec_lower [of "Suc i'" i' s s] E_spec_lower [of i' "Suc i'" s s]
    E_spec_identical [of "Suc i'" s] i
  show ?thesis
    unfolding i' by (simp add: P_tag_def INDEL_def min_def del: E_spec.simps)
qed

lemma pyget2_full_tab:
  "i \<le> n \<Longrightarrow> j \<le> m \<Longrightarrow> pyget2 (full_tab f n m) (int i) (int j) = Some (f i j)"
  unfolding partial_tab_full [of f n m 0, symmetric] by (rule pyget2_partial_tab) simp_all

lemma alignedUnrestricted_loop_identical:
  assumes "i \<le> n" and "n \<le> length s"
  shows "alignedUnrestricted_loop s s (full_tab (P_tag s s) n n) (int i) (int i) a1 a2
         = Some (take i s @ a1, take i s @ a2)"
  using assms
proof (induction i arbitrary: a1 a2)
  case 0
  show ?case by (simp add: alignedUnrestricted_loop.simps [of _ _ _ 0 0])
next
  case (Suc i)
  let ?P = "full_tab (P_tag s s) n n"
  have tag: "pyget2 ?P (int (Suc i)) (int (Suc i)) = Some (Fin 0)"
    using Suc.prems by (simp add: pyget2_full_tab P_tag_identical del: of_nat_Suc)
  have c: "pyget s (int i) = Some (s ! i)"
    using Suc.prems by (simp add: pyget_nat)
  have "alignedUnrestricted_loop s s ?P (int i) (int i) (s ! i # a1) (s ! i # a2)
      = Some (take i s @ s ! i # a1, take i s @ s ! i # a2)"
    using Suc.prems by (intro Suc.IH) simp_all
  moreover have "take (Suc i) s = take i s @ [s ! i]"
    using Suc.prems by (simp add: take_Suc_conv_app_nth)
  ultimately show ?case
    by (simp add: alignedUnrestricted_loop.simps [of _ _ _ "int (Suc i)" "int (Suc i)"]
        tag c int_Suc_minus_1 del: of_nat_Suc)
qed

lemma length_full_tab [simp]: "length (full_tab f n m) = Suc n"
  by (simp add: full_tab_def)

lemma length_full_tab_row: "i \<le> n \<Longrightarrow> length (full_tab f n m ! i) = Suc m"
  unfolding full_tab_def by (simp del: upt_Suc)

lemma alignedUnrestricted_full_tab:
  "alignedUnrestricted seq1 seq2 (full_tab f n m) =
     (case alignedUnrestricted_loop seq1 seq2 (full_tab f n m) (int n) (int m) [] [] of
        None \<Rightarrow> None
      | Some (a1, a2) \<Rightarrow> Some (take 100 a1, take 100 a2))"
proof -
  let ?P = "full_tab f n m"
  have row: "pyget ?P (int n) = Some (?P ! n)"
    by (simp add: pyget_nat)
  have len: "int (length (?P ! n)) - 1 = int m"
    by (simp add: length_full_tab_row)
  have i: "int (length ?P) - 1 = int n" by simp
  show ?thesis
    unfolding alignedUnrestricted_def Let_def i
    by (simp add: row len pyprefix_def split: option.splits del: of_nat_Suc)
qed

lemma full_tab_nonempty [simp]: "full_tab f n m \<noteq> []"
  by (simp add: full_tab_def)

lemma align_identical:
  assumes "int (length s) \<le> k"
  shows "align s s False k =
     Some \<lparr>align_cost = Fin (- 3 * int (length s)), seqi_first100 = take 100 s,
            seqj_first100 = take 100 s\<rparr>"
proof -
  let ?self = "\<lparr>banded = False, MaxCharactersToAlign = k\<rparr>"
  from assms have k: "0 \<le> MaxCharactersToAlign ?self" and n: "min (length s) (nat k) = length s"
    by simp_all
  have dist: "getEditDistance ?self s s =
      Some (Fin (- 3 * int (length s)), full_tab (P_tag s s) (length s) (length s))"
    using getEditDistanceUnrestricted_eq [OF k, of s s]
    by (simp add: getEditDistance_def n E_spec_identical)
  have tb: "aligned ?self s s (full_tab (P_tag s s) (length s) (length s))
      = Some (take 100 s, take 100 s)"
    by (simp add: aligned_def alignedUnrestricted_full_tab alignedUnrestricted_loop_identical)
  show ?thesis
    unfolding align_def Let_def by (simp add: dist tb)
qed

section \<open>Claims\<close>

text \<open>
  C1. With a non-negative align length, \<open>getEditDistanceUnrestricted\<close> returns the cost
  \<open>E[n][m]\<close> of the dynamic program \<open>E_spec\<close> on the two sequences cut to the align length,
  and this value is the least cost of an alignment of the two cut sequences under the costs
  match -3, substitution +1, indel +5: some alignment has this cost and none has less.
\<close>

theorem C1_unrestricted_cost_optimal:
  assumes "0 \<le> MaxCharactersToAlign self"
  shows "(\<exists>P. getEditDistanceUnrestricted self seq1 seq2 =
            Some (Fin (E_spec (pyprefix seq1 (MaxCharactersToAlign self))
                              (pyprefix seq2 (MaxCharactersToAlign self))
                              (length (pyprefix seq1 (MaxCharactersToAlign self)))
                              (length (pyprefix seq2 (MaxCharactersToAlign self)))), P)) \<and>
         (\<exists>al. aligns al (pyprefix seq1 (MaxCharactersToAlign self))
                          (pyprefix seq2 (MaxCharactersToAlign self)) \<and>
               alignment_cost al =
                 E_spec (pyprefix seq1 (MaxCharactersToAlign self))
                        (pyprefix seq2 (MaxCharactersToAlign self))
                        (length (pyprefix seq1 (MaxCharactersToAlign self)))
                        (length (pyprefix seq2 (MaxCharactersToAlign self)))) \<and>
         (\<forall>al. aligns al (pyprefix seq1 (MaxCharactersToAlign self))
                          (pyprefix seq2 (MaxCharactersToAlign self)) \<longrightarrow>
               E_spec (pyprefix seq1 (MaxCharactersToAlign self))
                      (pyprefix seq2 (MaxCharactersToAlign self))
                      (length (pyprefix seq1 (MaxCharactersToAlign self)))
                      (length (pyprefix seq2 (MaxCharactersToAlign self)))
                 \<le> alignment_cost al)"
proof -
  let ?k = "MaxCharactersToAlign self"
  let ?s = "pyprefix seq1 ?k" and ?t = "pyprefix seq2 ?k"
  let ?n = "min (length seq1) (nat ?k)" and ?m = "min (length seq2) (nat ?k)"
  from assms have s: "?s = take ?n seq1" and t: "?t = take ?m seq2"
    by (simp_all add: pyprefix_def min_def)
  have len: "length ?s = ?n" "length ?t = ?m"
    unfolding s t by simp_all
  have cut: "E_spec ?s ?t ?n ?m = E_spec seq1 seq2 ?n ?m"
    unfolding s t by (rule E_spec_take) simp_all
  have "getEditDistanceUnrestricted self seq1 seq2 =
      Some (Fin (E_spec ?s ?t (length ?s) (length ?t)), full_tab (P_tag seq1 seq2) ?n ?m)"
    unfolding len cut using assms by (rule getEditDistanceUnrestricted_eq)
  moreover
  from alignment_exists [of "length ?s" ?s "length ?t" ?t]
  have "\<exists>al. aligns al ?s ?t \<and> alignment_cost al = E_spec ?s ?t (length ?s) (length ?t)"
    by (simp add: aligns_def)
  moreover
  have "\<forall>al. aligns al ?s ?t \<longrightarrow> E_spec ?s ?t (length ?s) (length ?t) \<le> alignment_cost al"
  proof (intro allI impI)
    fix al
    assume "aligns al ?s ?t"
    then have "top_seq al = ?s" and "bottom_seq al = ?t"
      by (simp_all add: aligns_def)
    with alignment_cost_lower [of al]
    show "E_spec ?s ?t (length ?s) (length ?t) \<le> alignment_cost al" by simp
  qed
  ultimately show ?thesis by blast
qed

theorem C1_unrestricted_cost_optimal_witness:
  "(0::int) \<le> 4 \<and>
   (\<exists>P. getEditDistanceUnrestricted \<lparr>banded = False, MaxCharactersToAlign = 4\<rparr> ''AATT'' ''AA''
      = Some (Fin 4, P)) \<and>
   (\<exists>al. aligns al ''AATT'' ''AA'' \<and> alignment_cost al = 4) \<and>
   \<not> (\<exists>al. aligns al ''AATT'' ''AA'' \<and> alignment_cost al < 4)"
proof -
  have e: "E_spec ''AATT'' ''AA'' (length ''AATT'') (length ''AA'') = 4" by code_simp
  have p: "pyprefix ''AATT'' 4 = ''AATT''" "pyprefix ''AA'' 4 = ''AA''"
    by (simp_all add: pyprefix_def)
  have h: "(0::int) \<le> MaxCharactersToAlign \<lparr>banded = False, MaxCharactersToAlign = 4\<rparr>"
    by simp
  have "(\<exists>P. getEditDistanceUnrestricted \<lparr>banded = False, MaxCharactersToAlign = 4\<rparr> ''AATT'' ''AA''
            = Some (Fin 4, P)) \<and>
        (\<exists>al. aligns al ''AATT'' ''AA'' \<and> alignment_cost al = 4) \<and>
        (\<forall>al. aligns al ''AATT'' ''AA'' \<longrightarrow> 4 \<le> alignment_cost al)"
    using C1_unrestricted_cost_optimal [OF h, of "''AATT''" "''AA''"]
    unfolding GeneSequencing.select_convs p e by blast
  then show ?thesis by fastforce
qed

text \<open>
  C3. For non-empty sequences and a positive align length, in every cell with \<open>i, j \<ge> 1\<close>
  of the unrestricted tables, and in every in-band cell of a row \<open>i \<ge> 1\<close> of the banded
  tables (when the length difference is at most 3), the cost stored is the least candidate
  cost and the back-pointer stored is the first of left (tag 1), up (tag 2), diagonal
  (tag 0) whose candidate equals that cost.
\<close>

theorem C3_tie_break_priority:
  assumes s: "s = pyprefix seq1 (MaxCharactersToAlign self)"
    and t: "t = pyprefix seq2 (MaxCharactersToAlign self)"
    and ne: "seq1 \<noteq> []" "seq2 \<noteq> []" and k: "0 < MaxCharactersToAlign self"
  shows "(\<exists>E P. unrestricted_tables seq1 seq2 (int (length s) + 1) (int (length t) + 1) = Some (E, P) \<and>
            map_option snd (getEditDistanceUnrestricted self seq1 seq2) = Some P \<and>
            (\<forall>i j. 1 \<le> i \<and> i \<le> length s \<and> 1 \<le> j \<and> j \<le> length t \<longrightarrow>
               tie_break_unrestricted seq1 seq2 E P i j)) \<and>
         (abs (int (length s) - int (length t)) \<le> MAXINDELS \<longrightarrow>
          (\<exists>E P. banded_tables s t (int (length s) + 1) (2 * MAXINDELS + 1) = Some (E, P) \<and>
             map_option snd (getEditDistanceBanded self seq1 seq2) = Some P \<and>
             (\<forall>i j. 1 \<le> i \<and> i \<le> length s \<and> j \<le> 6 \<and> 3 \<le> i + j \<and> i + j \<le> length t + 3 \<longrightarrow>
                tie_break_banded s t E P i j)))"
proof (intro conjI impI)
  let ?k = "MaxCharactersToAlign self"
  let ?n = "length s" and ?m = "length t"
  from k have n: "?n = min (length seq1) (nat ?k)" and m: "?m = min (length seq2) (nat ?k)"
    unfolding s t by (simp_all add: pyprefix_take min.commute)
  let ?E = "full_tab (E_spec seq1 seq2) ?n ?m" and ?P = "full_tab (P_tag seq1 seq2) ?n ?m"
  have "unrestricted_tables seq1 seq2 (int ?n + 1) (int ?m + 1) = Some (?E, ?P)"
    by (rule unrestricted_tables_eq) (simp_all add: n m)
  moreover have "map_option snd (getEditDistanceUnrestricted self seq1 seq2) = Some ?P"
    using k by (simp add: getEditDistanceUnrestricted_eq n m)
  moreover have "\<forall>i j. 1 \<le> i \<and> i \<le> ?n \<and> 1 \<le> j \<and> j \<le> ?m \<longrightarrow>
      tie_break_unrestricted seq1 seq2 ?E ?P i j"
  proof (intro allI impI)
    fix i j
    assume "1 \<le> i \<and> i \<le> ?n \<and> 1 \<le> j \<and> j \<le> ?m"
    with unrestricted_priority [of i ?n j ?m seq1 seq2]
    show "tie_break_unrestricted seq1 seq2 ?E ?P i j"
      unfolding tie_break_unrestricted_def Let_def by blast
  qed
  ultimately show "\<exists>E P. unrestricted_tables seq1 seq2 (int ?n + 1) (int ?m + 1) = Some (E, P) \<and>
      map_option snd (getEditDistanceUnrestricted self seq1 seq2) = Some P \<and>
      (\<forall>i j. 1 \<le> i \<and> i \<le> ?n \<and> 1 \<le> j \<and> j \<le> ?m \<longrightarrow> tie_break_unrestricted seq1 seq2 E P i j)"
    by blast
next
  assume feasible: "abs (int (length s) - int (length t)) \<le> MAXINDELS"
  let ?n = "length s"
  let ?E = "band_full (band_E s t) (Suc ?n)" and ?P = "band_full (band_P s t) (Suc ?n)"
  from ne k have tne: "t \<noteq> []" unfolding t by (intro pyprefix_nonempty)
  have "banded_tables s t (int ?n + 1) (2 * MAXINDELS + 1) = Some (?E, ?P)"
    using tne by (simp add: banded_tables_eq MAXINDELS_def)
  moreover have "map_option snd (getEditDistanceBanded self seq1 seq2) = Some ?P"
    using getEditDistanceBanded_eq [OF s t feasible] tne by simp
  moreover have "\<forall>i j. 1 \<le> i \<and> i \<le> ?n \<and> j \<le> 6 \<and> 3 \<le> i + j \<and> i + j \<le> length t + 3 \<longrightarrow>
      tie_break_banded s t ?E ?P i j"
  proof (intro allI impI)
    fix i j
    assume a: "1 \<le> i \<and> i \<le> ?n \<and> j \<le> 6 \<and> 3 \<le> i + j \<and> i + j \<le> length t + 3"
    then have "band_valid t i j" by (simp add: band_valid_def)
    with a tne banded_priority [of i ?n j t s] show "tie_break_banded s t ?E ?P i j"
      unfolding tie_break_banded_def Let_def by (auto split: option.splits)
  qed
  ultimately show "\<exists>E P. banded_tables s t (int ?n + 1) (2 * MAXINDELS + 1) = Some (E, P) \<and>
      map_option snd (getEditDistanceBanded self seq1 seq2) = Some P \<and>
      (\<forall>i j. 1 \<le> i \<and> i \<le> ?n \<and> j \<le> 6 \<and> 3 \<le> i + j \<and> i + j \<le> length t + 3 \<longrightarrow>
         tie_break_banded s t E P i j)"
    by blast
qed

theorem C3_tie_break_priority_witness:
  "''AATT'' = pyprefix ''AATT'' 4 \<and> ''AA'' = pyprefix ''AA'' 4 \<and>
   ''AATT'' \<noteq> [] \<and> ''AA'' \<noteq> [] \<and> (0::int) < 4 \<and>
   abs (int (length ''AATT'') - int (length ''AA'')) \<le> MAXINDELS \<and>
   (\<exists>E P. unrestricted_tables ''AATT'' ''AA'' (int (length ''AATT'') + 1) (int (length ''AA'') + 1)
            = Some (E, P) \<and>
      map_option snd (getEditDistanceUnrestricted \<lparr>banded = True, MaxCharactersToAlign = 4\<rparr>
        ''AATT'' ''AA'') = Some P \<and>
      (\<forall>i j. 1 \<le> i \<and> i \<le> length ''AATT'' \<and> 1 \<le> j \<and> j \<le> length ''AA'' \<longrightarrow>
         tie_break_unrestricted ''AATT'' ''AA'' E P i j)) \<and>
   (\<exists>E P. banded_tables ''AATT'' ''AA'' (int (length ''AATT'') + 1) (2 * MAXINDELS + 1) = Some (E, P) \<and>
      map_option snd (getEditDistanceBanded \<lparr>banded = True, MaxCharactersToAlign = 4\<rparr>
        ''AATT'' ''AA'') = Some P \<and>
      (\<forall>i j. 1 \<le> i \<and> i \<le> length ''AATT'' \<and> j \<le> 6 \<and> 3 \<le> i + j \<and> i + j \<le> length ''AA'' + 3 \<longrightarrow>
         tie_break_banded ''AATT'' ''AA'' E P i j))"
proof -
  let ?self = "\<lparr>banded = True, MaxCharactersToAlign = 4\<rparr>"
  have s: "''AATT'' = pyprefix ''AATT'' (MaxCharactersToAlign ?self)"
    and t: "''AA'' = pyprefix ''AA'' (MaxCharactersToAlign ?self)"
    by (simp_all add: pyprefix_def)
  have ne: "''AATT'' \<noteq> []" "''AA'' \<noteq> []" by simp_all
  have k: "0 < MaxCharactersToAlign ?self" by simp
  have f: "abs (int (length ''AATT'') - int (length ''AA'')) \<le> MAXINDELS"
    by (simp add: MAXINDELS_def)
  have p: "''AATT'' = pyprefix ''AATT'' 4" "''AA'' = pyprefix ''AA'' 4"
    by (simp_all add: pyprefix_def)
  have z: "(0::int) < 4" by simp
  note th = C3_tie_break_priority [OF s t ne k]
  note A = th [THEN conjunct1] and B = th [THEN conjunct2, THEN mp, OF f]
  show ?thesis
    by (rule conjI [OF p(1) conjI [OF p(2) conjI [OF ne(1) conjI [OF ne(2)
        conjI [OF z conjI [OF f conjI [OF A B]]]]]]])
qed

text \<open>
  C5. For non-empty sequences, a positive align length and a length difference of at most 3,
  the banded builder returns the cost of the last band row at the rightmost column \<open>j\<close>
  holding a finite cost (every column to its right, up to column 6, holds \<open>math.inf\<close>);
  the back-pointer row has its rightmost non-infinite entry at the same column \<open>j\<close>, so the
  first loop of \<open>alignedBanded\<close>, started at column 6 of the last row, stops at \<open>j\<close>, and
  the traceback runs from that cell.
\<close>

theorem C5_banded_terminal_cell:
  assumes s: "s = pyprefix seq1 (MaxCharactersToAlign self)"
    and t: "t = pyprefix seq2 (MaxCharactersToAlign self)"
    and ne: "seq1 \<noteq> []" "seq2 \<noteq> []" and k: "0 < MaxCharactersToAlign self"
    and feasible: "abs (int (length s) - int (length t)) \<le> MAXINDELS"
  shows "\<exists>E P j.
      banded_tables s t (int (length s) + 1) (2 * MAXINDELS + 1) = Some (E, P) \<and>
      j \<le> 6 \<and> E ! length s ! j \<noteq> PInf \<and>
      (\<forall>j'. j < j' \<and> j' \<le> 6 \<longrightarrow> E ! length s ! j' = PInf) \<and>
      getEditDistanceBanded self seq1 seq2 = Some (E ! length s ! j, P) \<and>
      length P - 1 = length s \<and> P ! length s ! j \<noteq> PInf \<and>
      (\<forall>j'. j < j' \<and> j' \<le> 6 \<longrightarrow> P ! length s ! j' = PInf) \<and>
      alignedBanded_start P (int (length P) - 1) 6 = Some (int j) \<and>
      alignedBanded seq1 seq2 P =
        (case alignedBanded_loop seq1 seq2 P (int (length s)) (int j) [] [] of
           None \<Rightarrow> None
         | Some (a1, a2) \<Rightarrow> Some (pyprefix a1 100, pyprefix a2 100))"
proof -
  let ?n = "length s" and ?m = "length t"
  let ?j = "?m + 3 - ?n"
  let ?E = "band_full (band_E s t) (Suc ?n)" and ?P = "band_full (band_P s t) (Suc ?n)"
  from feasible have mn: "?m \<le> ?n + 3" "?n \<le> ?m + 3"
    by (simp_all add: MAXINDELS_def)
  from ne k have tne: "t \<noteq> []" unfolding t by (intro pyprefix_nonempty)
  have valid: "band_valid t ?n ?j" using mn by (simp add: band_valid_def)
  have invalid: "\<not> band_valid t ?n j'" if "?j < j'" for j'
    using that mn unfolding band_valid_def by linarith
  have j6: "?j \<le> 6" using mn by simp
  have "banded_tables s t (int ?n + 1) (2 * MAXINDELS + 1) = Some (?E, ?P)"
    using tne by (simp add: banded_tables_eq MAXINDELS_def)
  moreover have "?E ! ?n ! ?j \<noteq> PInf"
    using j6 valid by (simp add: nth_band_full band_E_finite)
  moreover have "\<forall>j'. ?j < j' \<and> j' \<le> 6 \<longrightarrow> ?E ! ?n ! j' = PInf"
    using invalid by (simp add: nth_band_full band_E_invalid)
  moreover have "getEditDistanceBanded self seq1 seq2 = Some (?E ! ?n ! ?j, ?P)"
    using getEditDistanceBanded_eq [OF s t feasible] tne j6 by (simp add: nth_band_full)
  moreover have "?P ! ?n ! ?j \<noteq> PInf"
    using j6 valid by (simp add: nth_band_full band_P_PInf)
  moreover have "\<forall>j'. ?j < j' \<and> j' \<le> 6 \<longrightarrow> ?P ! ?n ! j' = PInf"
    using invalid by (simp add: nth_band_full band_P_PInf)
  moreover have "alignedBanded_start ?P (int (length ?P) - 1) 6 = Some (int ?j)"
    using alignedBanded_start_eq [OF mn, of s] by simp
  moreover note alignedBanded_eq [OF mn, of seq1 seq2 s]
  ultimately show ?thesis using j6
    by (intro exI [of _ ?E] exI [of _ ?P] exI [of _ ?j]) simp
qed

theorem C5_banded_terminal_cell_witness:
  "''AATT'' = pyprefix ''AATT'' 4 \<and> ''AA'' = pyprefix ''AA'' 4 \<and>
   ''AATT'' \<noteq> [] \<and> ''AA'' \<noteq> [] \<and> (0::int) < 4 \<and>
   abs (int (length ''AATT'') - int (length ''AA'')) \<le> MAXINDELS \<and>
   (\<exists>E P j.
      banded_tables ''AATT'' ''AA'' (int (length ''AATT'') + 1) (2 * MAXINDELS + 1) = Some (E, P) \<and>
      j \<le> 6 \<and> E ! length ''AATT'' ! j \<noteq> PInf \<and>
      (\<forall>j'. j < j' \<and> j' \<le> 6 \<longrightarrow> E ! length ''AATT'' ! j' = PInf) \<and>
      getEditDistanceBanded \<lparr>banded = True, MaxCharactersToAlign = 4\<rparr> ''AATT'' ''AA''
        = Some (E ! length ''AATT'' ! j, P) \<and>
      length P - 1 = length ''AATT'' \<and> P ! length ''AATT'' ! j \<noteq> PInf \<and>
      (\<forall>j'. j < j' \<and> j' \<le> 6 \<longrightarrow> P ! length ''AATT'' ! j' = PInf) \<and>
      alignedBanded_start P (int (length P) - 1) 6 = Some (int j) \<and>
      alignedBanded ''AATT'' ''AA'' P =
        (case alignedBanded_loop ''AATT'' ''AA'' P (int (length ''AATT'')) (int j) [] [] of
           None \<Rightarrow> None
         | Some (a1, a2) \<Rightarrow> Some (pyprefix a1 100, pyprefix a2 100)))"
proof -
  let ?self = "\<lparr>banded = True, MaxCharactersToAlign = 4\<rparr>"
  have s: "''AATT'' = pyprefix ''AATT'' (MaxCharactersToAlign ?self)"
    and t: "''AA'' = pyprefix ''AA'' (MaxCharactersToAlign ?self)"
    by (simp_all add: pyprefix_def)
  have ne: "''AATT'' \<noteq> []" "''AA'' \<noteq> []" by simp_all
  have k: "0 < MaxCharactersToAlign ?self" by simp
  have f: "abs (int (length ''AATT'') - int (length ''AA'')) \<le> MAXINDELS"
    by (simp add: MAXINDELS_def)
  have p: "''AATT'' = pyprefix ''AATT'' 4" "''AA'' = pyprefix ''AA'' 4"
    by (simp_all add: pyprefix_def)
  have z: "(0::int) < 4" by simp
  note A = C5_banded_terminal_cell [OF s t ne k f]
  show ?thesis
    by (rule conjI [OF p(1) conjI [OF p(2) conjI [OF ne(1) conjI [OF ne(2)
        conjI [OF z conjI [OF f A]]]]]])
qed

text \<open>
  C6. For every sequence \<open>A\<close> with \<open>len(A) \<le> alignLength\<close>, unrestricted \<open>align(A, A)\<close>
  returns cost \<open>-3 * len(A)\<close> and, on both sides, \<open>A\<close> cut to its first 100 characters with
  no gap marker added; at \<open>AAAA\<close> with align length 4 this is cost -12 and \<open>AAAA\<close>.
\<close>

theorem C6_identical_sequences:
  assumes "int (length A) \<le> k"
  shows "align A A False k =
     Some \<lparr>align_cost = Fin (- 3 * int (length A)), seqi_first100 = take 100 A,
            seqj_first100 = take 100 A\<rparr>"
  using assms by (rule align_identical)

theorem C6_identical_sequences_witness:
  "int (length ''AAAA'') \<le> 4 \<and>
   align ''AAAA'' ''AAAA'' False 4 =
     Some \<lparr>align_cost = Fin (- 12), seqi_first100 = ''AAAA'', seqj_first100 = ''AAAA''\<rparr>"
proof -
  have h: "int (length ''AAAA'') \<le> 4" by simp
  from C6_identical_sequences [OF h] h show ?thesis by simp
qed

section \<open>Worked inputs\<close>

text \<open>
  C4, as stated, at an input where it fails. The inputs \<open>A\<close> and \<open>AAAAA\<close> differ in length
  by 4, yet with align length 1 both are cut to one character before the lengths are
  compared, and banded mode returns the finite cost -3 with a real alignment.
\<close>

theorem C4_untruncated_lengths_counterexample:
  "abs (int (length ''A'') - int (length ''AAAAA'')) > 3 \<and>
   align ''A'' ''AAAAA'' True 1 =
     Some \<lparr>align_cost = Fin (- 3), seqi_first100 = ''A'', seqj_first100 = ''A''\<rparr>"
  by code_simp

text \<open>
  C4, amended: whenever the lengths of the two sequences, each cut to its first
  \<open>alignLength\<close> characters, differ by more than 3, banded \<open>align\<close> returns normally with
  cost \<open>math.inf\<close> and the string \<open>No Alignment Possible\<close> on both sides.
\<close>

theorem C4_banded_infeasible:
  assumes "abs (int (length (pyprefix seq1 k)) - int (length (pyprefix seq2 k))) > 3"
  shows "align seq1 seq2 True k =
     Some \<lparr>align_cost = PInf, seqi_first100 = ''No Alignment Possible'',
            seqj_first100 = ''No Alignment Possible''\<rparr>"
  using assms
  by (simp add: align_def getEditDistance_def getEditDistanceBanded_def aligned_def
      MAXINDELS_def Let_def)

theorem C4_banded_infeasible_witness:
  "abs (int (length (pyprefix ''A'' 5)) - int (length (pyprefix ''AAAAA'' 5))) > 3 \<and>
   align ''A'' ''AAAAA'' True 5 =
     Some \<lparr>align_cost = PInf, seqi_first100 = ''No Alignment Possible'',
            seqj_first100 = ''No Alignment Possible''\<rparr>"
proof -
  have h: "abs (int (length (pyprefix ''A'' 5)) - int (length (pyprefix ''AAAAA'' 5))) > 3"
    by (simp add: pyprefix_def)
  from h C4_banded_infeasible [OF h] show ?thesis by simp
qed

text \<open>
  C7, as stated, at its own input: the banded cost of \<open>AATT\<close> against \<open>AA\<close> with align
  length 4 is not 10.
\<close>

theorem C7_cost_10_counterexample:
  "map_option fst (getEditDistanceBanded \<lparr>banded = True, MaxCharactersToAlign = 4\<rparr> ''AATT'' ''AA'')
     \<noteq> Some (Fin 10)"
  by code_simp

text \<open>
  C7, amended: for \<open>AATT\<close> against \<open>AA\<close> in banded mode with align length 4 the alignment
  is feasible (length difference 2, at most 3), the banded cost is 4 (two matches at -3,
  two indels at 5), and the unrestricted cost on the same input is 4 as well.
\<close>

theorem C7_banded_example:
  "abs (int (length (pyprefix ''AATT'' 4)) - int (length (pyprefix ''AA'' 4))) \<le> MAXINDELS \<and>
   map_option fst (getEditDistanceBanded \<lparr>banded = True, MaxCharactersToAlign = 4\<rparr> ''AATT'' ''AA'')
     = Some (Fin 4) \<and>
   map_option fst (getEditDistanceUnrestricted \<lparr>banded = False, MaxCharactersToAlign = 4\<rparr> ''AATT'' ''AA'')
     = Some (Fin 4) \<and>
   align ''AATT'' ''AA'' True 4 =
     Some \<lparr>align_cost = Fin 4, seqi_first100 = ''AATT'', seqj_first100 = ''AA--''\<rparr> \<and>
   align ''AATT'' ''AA'' False 4 = align ''AATT'' ''AA'' True 4"
  by code_simp

text \<open>
  C8 at a failing input: for \<open>A\<close> against \<open>A\<close> the unrestricted builder stores tag 0
  (diagonal) in column 0 of row 1, where the claim has tag 2 (up); row 0 carries tag 1.
\<close>

theorem C8_column0_tag:
  "map_option snd (getEditDistanceUnrestricted \<lparr>banded = False, MaxCharactersToAlign = 1\<rparr> ''A'' ''A'')
     = Some [[Fin 0, Fin 1], [Fin 0, Fin 0]]"
  by code_simp

text \<open>
  C9 at a failing input: unrestricted \<open>align\<close> of \<open>TTAA\<close> against \<open>AA\<close> raises IndexError.
  The traceback reaches column 0 in row 2, follows the tag 0 stored there to column -1,
  and later reads \<open>seq2[-3]\<close>.
\<close>

theorem C9_unrestricted_raises:
  "align ''TTAA'' ''AA'' False 4 = None"
  by code_simp

text \<open>
  C10 at a failing input: \<open>ACGTA\<close> and \<open>ACGTAG\<close> agree on their first 5 characters, but
  unrestricted \<open>align\<close> with align length 5 gives different second strings, since the
  traceback reads \<open>seq2[-1]\<close> of the sequence as passed in.
\<close>

theorem C10_unrestricted_reads_beyond_prefix:
  "pyprefix ''ACGTA'' 5 = pyprefix ''ACGTAG'' 5 \<and>
   align ''TACGT'' ''ACGTA'' False 5 =
     Some \<lparr>align_cost = Fin (- 2), seqi_first100 = ''TACGT-'', seqj_first100 = ''AACGTA''\<rparr> \<and>
   align ''TACGT'' ''ACGTAG'' False 5 =
     Some \<lparr>align_cost = Fin (- 2), seqi_first100 = ''TACGT-'', seqj_first100 = ''GACGTA''\<rparr>"
  by code_simp

end
